theory Spec2Isabelle
  imports Main "HOL-Library.Sublist"
begin

section \<open>Python strings and dictionaries\<close>

text \<open>
  A Python \<open>str\<close> is modelled as a \<open>string\<close>; one \<open>char\<close> stands for one code point
  in the range 0..255, and the character functions below are Python's restricted to that
  range.

  \<open>str.lower()\<close>: the upper-case letters below 256 are A..Z (65..90) and the accented
  capitals 192..222 without the multiplication sign 215; each is 32 below its lower-case
  partner, and bit 5 (value 32) is clear in all of them, so adding 32 is setting that bit.
\<close>

fun lower_char :: "char \<Rightarrow> char" where
  "lower_char (Char b0 b1 b2 b3 b4 b5 b6 b7) =
     (let n = (of_char (Char b0 b1 b2 b3 b4 b5 b6 b7) :: nat)
      in if (65 \<le> n \<and> n \<le> 90) \<or> (192 \<le> n \<and> n \<le> 222 \<and> n \<noteq> 215)
         then Char b0 b1 b2 b3 b4 True b6 b7
         else Char b0 b1 b2 b3 b4 b5 b6 b7)"

definition lower :: "string \<Rightarrow> string" where
  "lower s = map lower_char s"

text \<open>\<open>needle in haystack\<close> on strings: the needle starts at some position of the haystack.\<close>

fun str_in :: "string \<Rightarrow> string \<Rightarrow> bool" where
  "str_in needle [] = (needle = [])"
| "str_in needle (c # cs) = (prefix needle (c # cs) \<or> str_in needle cs)"

text \<open>\<open>s.replace(a, b)\<close> for one-character \<open>a\<close> and \<open>b\<close>.\<close>

definition replace_char :: "char \<Rightarrow> char \<Rightarrow> string \<Rightarrow> string" where
  "replace_char a b s = map (\<lambda>c. if c = a then b else c) s"

text \<open>
  A dictionary with string keys is an association list; \<open>d.get(key, dflt)\<close> is
  \<open>dict_get\<close>, and a dictionary is falsy exactly when it has no entry.
\<close>

type_synonym 'v dict = "(string \<times> 'v) list"

definition dict_get :: "'v dict \<Rightarrow> string \<Rightarrow> 'v \<Rightarrow> 'v" where
  "dict_get d key dflt = (case map_of d key of Some v \<Rightarrow> v | None \<Rightarrow> dflt)"

section \<open>The metadata catalog and the family resolver\<close>

text \<open>
  One catalog row is a dictionary with a \<open>family\<close> string; the metadata document is a
  dictionary whose \<open>familyMetadataList\<close> entry is the ordered list of rows.
\<close>

type_synonym font_data = "string dict"
type_synonym metadata = "font_data list dict"

text \<open>
  What the program does not determine is the environment: what
  \<open>get_google_fonts_metadata\<close> returns (\<open>None\<close> after a \<open>RequestException\<close>), for
  each stylesheet URL the response text (\<open>None\<close> when the request raises), and which
  element of a set of strings comes first when the set is turned into a list.
\<close>

record env =
  metadata_response :: "metadata option"
  css_response :: "string \<Rightarrow> string option"
  set_first :: "string set \<Rightarrow> string"

definition get_google_fonts_metadata :: "'a env_scheme \<Rightarrow> metadata option" where
  "get_google_fonts_metadata e = metadata_response e"

text \<open>The first loop of \<open>find_font_family\<close> (equality of the lower-cased names).\<close>

fun exact_pass :: "string \<Rightarrow> font_data list \<Rightarrow> string option" where
  "exact_pass search_name_lower [] = None"
| "exact_pass search_name_lower (font_data # family_list) =
     (let family_name = dict_get font_data ''family'' ''''
      in if lower family_name = search_name_lower then Some family_name
         else exact_pass search_name_lower family_list)"

text \<open>The second loop (the lower-cased query occurs in the lower-cased name).\<close>

fun substring_pass :: "string \<Rightarrow> font_data list \<Rightarrow> string option" where
  "substring_pass search_name_lower [] = None"
| "substring_pass search_name_lower (font_data # family_list) =
     (let family_name = dict_get font_data ''family'' ''''
      in if str_in search_name_lower (lower family_name) then Some family_name
         else substring_pass search_name_lower family_list)"

definition find_font_family ::
  "'a env_scheme \<Rightarrow> string \<Rightarrow> metadata option \<Rightarrow> string option" where
  "find_font_family e search_name metadata_arg =
     (let metadata = (case metadata_arg of None \<Rightarrow> get_google_fonts_metadata e
                      | Some m \<Rightarrow> Some m)
      in case metadata of
           None \<Rightarrow> None
         | Some m \<Rightarrow>
             if m = [] then None
             else
               (let search_name_lower = lower search_name;
                    family_list = dict_get m ''familyMetadataList'' []
                in case exact_pass search_name_lower family_list of
                     Some family_name \<Rightarrow> Some family_name
                   | None \<Rightarrow> substring_pass search_name_lower family_list))"

text \<open>The name a catalog row carries, and the document that holds just a catalog.\<close>

definition family_of :: "font_data \<Rightarrow> string" where
  "family_of font_data = dict_get font_data ''family'' ''''"

definition entry :: "string \<Rightarrow> font_data" where
  "entry name = [(''family'', name)]"

definition catalog :: "font_data list \<Rightarrow> metadata" where
  "catalog family_list = [(''familyMetadataList'', family_list)]"

section \<open>Regular expressions\<close>

text \<open>
  The patterns of \<open>get_font_urls\<close> are sequences of literal characters, character
  classes under \<open>*\<close>, \<open>+\<close> or \<open>+?\<close>, and capturing groups that are not nested. The
  matcher is the backtracking search of Python's \<open>re\<close> on such sequences: a greedy
  quantifier first takes one more character and gives it back when the rest of the pattern
  fails, a lazy one first tries the rest of the pattern. The flags \<open>MULTILINE\<close> and
  \<open>DOTALL\<close> change \<open>^\<close>, \<open>$\<close> and \<open>.\<close> only, and no pattern here has them.
\<close>

datatype quantifier = Star | Plus | LazyPlus

datatype atom =
    Lit char
  | Rep quantifier "char \<Rightarrow> bool"
  | GroupOpen
  | GroupClose

type_synonym regex = "atom list"

text \<open>
  \<open>re_match r s gs opn\<close> matches \<open>r\<close> at the start of \<open>s\<close>; \<open>gs\<close> are the groups closed
  so far and \<open>opn\<close> is the input that was left when the open group began. The result is
  the groups and the input left after the match.
\<close>

fun re_match ::
  "regex \<Rightarrow> string \<Rightarrow> string list \<Rightarrow> string option \<Rightarrow> (string list \<times> string) option" where
  "re_match [] s gs opn = Some (gs, s)"
| "re_match (Lit c # r) s gs opn =
     (case s of [] \<Rightarrow> None
      | x # xs \<Rightarrow> if x = c then re_match r xs gs opn else None)"
| "re_match (Rep Star cls # r) s gs opn =
     (case s of [] \<Rightarrow> re_match r [] gs opn
      | x # xs \<Rightarrow>
          if cls x
          then (case re_match (Rep Star cls # r) xs gs opn of
                  Some res \<Rightarrow> Some res
                | None \<Rightarrow> re_match r (x # xs) gs opn)
          else re_match r (x # xs) gs opn)"
| "re_match (Rep Plus cls # r) s gs opn =
     (case s of [] \<Rightarrow> None
      | x # xs \<Rightarrow> if cls x then re_match (Rep Star cls # r) xs gs opn else None)"
| "re_match (Rep LazyPlus cls # r) s gs opn =
     (case s of [] \<Rightarrow> None
      | x # xs \<Rightarrow>
          if cls x
          then (case re_match r xs gs opn of
                  Some res \<Rightarrow> Some res
                | None \<Rightarrow> re_match (Rep LazyPlus cls # r) xs gs opn)
          else None)"
| "re_match (GroupOpen # r) s gs opn = re_match r s gs (Some s)"
| "re_match (GroupClose # r) s gs opn =
     re_match r s
       (gs @ [case opn of None \<Rightarrow> [] | Some s0 \<Rightarrow> take (length s0 - length s) s0]) None"

text \<open>\<open>re.search\<close>: the groups of the match at the first position that has one.\<close>

fun re_search :: "regex \<Rightarrow> string \<Rightarrow> string list option" where
  "re_search r [] = map_option fst (re_match r [] [] None)"
| "re_search r (x # xs) =
     (case re_match r (x # xs) [] None of
        Some (gs, rest) \<Rightarrow> Some gs
      | None \<Rightarrow> re_search r xs)"

text \<open>
  \<open>re.findall\<close>: the groups of the successive matches from left to right, each search
  starting where the previous match ended (one character further after an empty match).
\<close>

function re_findall :: "regex \<Rightarrow> string \<Rightarrow> string list list" where
  "re_findall r s =
     (case re_match r s [] None of
        Some (gs, rest) \<Rightarrow>
          if length rest < length s then gs # re_findall r rest
          else gs # (case s of [] \<Rightarrow> [] | x # xs \<Rightarrow> re_findall r xs)
      | None \<Rightarrow> (case s of [] \<Rightarrow> [] | x # xs \<Rightarrow> re_findall r xs))"
  by pat_completeness auto
termination
  by (relation "measure (\<lambda>(r, s). length s)") auto

declare re_findall.simps [simp del]

text \<open>The character classes \<open>\s\<close>, \<open>\d\<close> and \<open>\w\<close> of a \<open>str\<close> pattern, below 256.\<close>

definition is_space :: "char \<Rightarrow> bool" where
  "is_space c =
     (let n = (of_char c :: nat)
      in (9 \<le> n \<and> n \<le> 13) \<or> (28 \<le> n \<and> n \<le> 32) \<or> n = 133 \<or> n = 160)"

definition is_digit :: "char \<Rightarrow> bool" where
  "is_digit c = (let n = (of_char c :: nat) in 48 \<le> n \<and> n \<le> 57)"

definition is_word :: "char \<Rightarrow> bool" where
  "is_word c =
     (let n = (of_char c :: nat)
      in (48 \<le> n \<and> n \<le> 57) \<or> (65 \<le> n \<and> n \<le> 90) \<or> n = 95 \<or> (97 \<le> n \<and> n \<le> 122)
         \<or> n = 170 \<or> n = 178 \<or> n = 179 \<or> n = 181 \<or> n = 185 \<or> n = 186
         \<or> (188 \<le> n \<and> n \<le> 190) \<or> (192 \<le> n \<and> n \<le> 214) \<or> (216 \<le> n \<and> n \<le> 246)
         \<or> 248 \<le> n)"

text \<open>\<open>[^c]\<close>: every character but \<open>c\<close>.\<close>

definition not_char :: "char \<Rightarrow> char \<Rightarrow> bool" where
  "not_char c x = (x \<noteq> c)"

definition lits :: "string \<Rightarrow> regex" where
  "lits s = map Lit s"

text \<open>\<open>s.strip()\<close>: white space removed at both ends.\<close>

definition strip :: "string \<Rightarrow> string" where
  "strip s = rev (dropWhile is_space (rev (dropWhile is_space s)))"

text \<open>The first group of a match, and the pair of groups \<open>findall\<close> gives for two groups.\<close>

definition group1 :: "string list \<Rightarrow> string" where
  "group1 gs = (case gs of [] \<Rightarrow> [] | g # rest \<Rightarrow> g)"

definition group_pair :: "string list \<Rightarrow> string \<times> string" where
  "group_pair gs = (case gs of g1 # g2 # rest \<Rightarrow> (g1, g2) | [g1] \<Rightarrow> (g1, []) | [] \<Rightarrow> ([], []))"

section \<open>The stylesheet parser\<close>

text \<open>\<^verbatim>\<open>/\*\s*([^*]+?)\s*\*/\s*@font-face\s*\{([^}]+)\}\<close>\<close>

definition face_pattern :: regex where
  "face_pattern =
     lits ''/*'' @ [Rep Star is_space, GroupOpen, Rep LazyPlus (not_char CHR ''*''), GroupClose,
       Rep Star is_space] @ lits ''*/'' @ [Rep Star is_space] @ lits ''@font-face''
     @ [Rep Star is_space, Lit CHR ''{'', GroupOpen, Rep Plus (not_char CHR ''}''), GroupClose,
       Lit CHR ''}'']"

text \<open>\<^verbatim>\<open>font-weight:\s*(\d+)\<close>\<close>

definition weight_pattern :: regex where
  "weight_pattern =
     lits ''font-weight:'' @ [Rep Star is_space, GroupOpen, Rep Plus is_digit, GroupClose]"

text \<open>\<^verbatim>\<open>font-style:\s*(\w+)\<close>\<close>

definition style_pattern :: regex where
  "style_pattern =
     lits ''font-style:'' @ [Rep Star is_space, GroupOpen, Rep Plus is_word, GroupClose]"

text \<open>\<^verbatim>\<open>src:\s*url\(([^)]+)\)\<close>\<close>

definition url_pattern :: regex where
  "url_pattern =
     lits ''src:'' @ [Rep Star is_space] @ lits ''url(''
     @ [GroupOpen, Rep Plus (not_char CHR '')''), GroupClose, Lit CHR '')'']"

text \<open>
  A value stored in a result dictionary is a Python value with its type. The source stores
  text in every field; the tag is kept for the weight, which is a number by its meaning.
\<close>

datatype py_value = PyStr string | PyInt int

record font_face =
  subset :: string
  weight :: py_value
  style :: string
  url :: string
  format :: string

record resolved_font_data =
  family :: string
  fonts :: "font_face list"
  all_urls :: "string set"

text \<open>The conditional expression that names the format of a URL.\<close>

definition format_type :: "string \<Rightarrow> string" where
  "format_type font_url =
     (if str_in ''.woff2'' font_url then ''woff2''
      else if str_in ''.woff'' font_url then ''woff''
      else ''ttf'')"

text \<open>
  The body of the loop over the matches: the face that is appended for one match, or
  \<open>None\<close> when the block has no URL and nothing is appended.
\<close>

definition parse_block :: "string \<Rightarrow> string \<Rightarrow> font_face option" where
  "parse_block subset_group font_face_content =
     (let subset = strip subset_group;
          weight_match = re_search weight_pattern font_face_content;
          weight = (case weight_match of Some gs \<Rightarrow> group1 gs | None \<Rightarrow> ''400'');
          style_match = re_search style_pattern font_face_content;
          style = (case style_match of Some gs \<Rightarrow> group1 gs | None \<Rightarrow> ''normal'');
          url_match = re_search url_pattern font_face_content
      in case url_match of
           Some gs \<Rightarrow>
             (let url = group1 gs
              in Some \<lparr>subset = subset, weight = PyStr weight, style = style, url = url,
                       format = format_type url\<rparr>)
         | None \<Rightarrow> None)"

fun collect_faces :: "(string \<times> string) list \<Rightarrow> font_face list \<Rightarrow> font_face list" where
  "collect_faces [] font_faces = font_faces"
| "collect_faces ((subset_group, font_face_content) # matches) font_faces =
     (case parse_block subset_group font_face_content of
        Some face \<Rightarrow> collect_faces matches (font_faces @ [face])
      | None \<Rightarrow> collect_faces matches font_faces)"

definition css_url :: "string \<Rightarrow> string" where
  "css_url correct_family_name =
     ''https://fonts.googleapis.com/css2?family=''
     @ replace_char CHR '' '' CHR ''+'' correct_family_name
     @ '':wght@400;700&display=swap''"

text \<open>What \<open>get_font_urls\<close> builds from the response text.\<close>

definition parse_css :: "string \<Rightarrow> string \<Rightarrow> resolved_font_data" where
  "parse_css family_name css_content =
     (let matches = map group_pair (re_findall face_pattern css_content);
          font_faces = collect_faces matches [];
          all_urls = map group1 (re_findall url_pattern css_content)
      in \<lparr>family = family_name, fonts = font_faces, all_urls = set all_urls\<rparr>)"

definition get_font_urls :: "'a env_scheme \<Rightarrow> string \<Rightarrow> resolved_font_data option" where
  "get_font_urls e family_name =
     (case find_font_family e family_name None of
        None \<Rightarrow> None
      | Some correct_family_name \<Rightarrow>
          if correct_family_name = [] then None
          else
            (case css_response e (css_url correct_family_name) of
               None \<Rightarrow> None
             | Some css_content \<Rightarrow> Some (parse_css family_name css_content)))"

text \<open>
  What the URL pattern describes, read as text: \<open>s\<close> starts with \<open>src:\<close>, white space,
  \<open>url(\<close>, a non-empty argument \<open>u\<close> without a closing parenthesis, and \<open>)\<close>; \<open>rest\<close>
  is what follows. This is an occurrence of \<open>src: url(...)\<close> at the start of \<open>s\<close>.
\<close>

definition url_occurrence :: "string \<Rightarrow> string \<Rightarrow> string \<Rightarrow> bool" where
  "url_occurrence s u rest \<longleftrightarrow>
     (\<exists>ws. s = ''src:'' @ ws @ ''url('' @ u @ '')'' @ rest
        \<and> (\<forall>c\<in>set ws. is_space c) \<and> u \<noteq> [] \<and> CHR '')'' \<notin> set u)"

section \<open>The preview cache\<close>

text \<open>
  \<open>page._preview_fonts\<close> and \<open>page.fonts\<close> are dictionaries from font keys to URLs.
  The field \<open>requested\<close> is a log that the program does not have: the families for which
  \<open>get_font_urls\<close> was called, in the order of the calls.
\<close>

record page =
  preview_fonts :: "string \<rightharpoonup> string"
  page_fonts :: "string \<rightharpoonup> string"
  requested :: "string list"

definition font_key_of :: "string \<Rightarrow> string" where
  "font_key_of family_name =
     ''preview_'' @ replace_char CHR ''-'' CHR ''_'' (replace_char CHR '' '' CHR ''_'' family_name)"

text \<open>
  The body of \<open>load_font\<close>, run from its first line to its last without another thread
  in between; \<open>family_name\<close> is \<open>font_data["family"]\<close>.
\<close>

definition load_font :: "'a env_scheme \<Rightarrow> string \<Rightarrow> string \<Rightarrow> page \<Rightarrow> page" where
  "load_font e family_name font_key pg =
     (case preview_fonts pg font_key of
        Some cached \<Rightarrow> pg
      | None \<Rightarrow>
          (let pg1 = pg\<lparr>requested := requested pg @ [family_name]\<rparr>
           in case get_font_urls e family_name of
                None \<Rightarrow> pg1
              | Some font_info \<Rightarrow>
                  if all_urls font_info = {} then pg1
                  else
                    (let font_url = set_first e (all_urls font_info)
                     in pg1\<lparr>preview_fonts := (preview_fonts pg1)(font_key \<mapsto> font_url),
                            page_fonts := (page_fonts pg1)(font_key \<mapsto> font_url)\<rparr>)))"

text \<open>
  What \<open>filter_fonts\<close> does for one listed family: it starts \<open>load_font\<close> when the key
  is not in \<open>page._preview_fonts\<close>. Here the thread runs at once and to its end.
\<close>

definition request_preview :: "'a env_scheme \<Rightarrow> string \<Rightarrow> page \<Rightarrow> page" where
  "request_preview e family_name pg =
     (let font_key = font_key_of family_name
      in case preview_fonts pg font_key of
           None \<Rightarrow> load_font e family_name font_key pg
         | Some cached \<Rightarrow> pg)"

text \<open>
  Threads. A \<open>load_font\<close> thread is at its check of the cache, inside \<open>get_font_urls\<close>
  (the request is in flight), back from it with the result, or finished. One step of a
  thread is the part of \<open>load_font\<close> up to the next of these points; between two points
  other threads may run, as the call of \<open>get_font_urls\<close> waits for the network.
\<close>

datatype progress =
    Checking
  | Fetching
  | Fetched "resolved_font_data option"
  | Finished

record thread =
  t_family :: string
  t_key :: string
  t_at :: progress

record world =
  shared :: page
  threads :: "thread list"

definition thread_step :: "'a env_scheme \<Rightarrow> thread \<Rightarrow> page \<Rightarrow> thread \<times> page" where
  "thread_step e t pg =
     (case t_at t of
        Checking \<Rightarrow>
          (case preview_fonts pg (t_key t) of
             Some cached \<Rightarrow> (t\<lparr>t_at := Finished\<rparr>, pg)
           | None \<Rightarrow> (t\<lparr>t_at := Fetching\<rparr>, pg\<lparr>requested := requested pg @ [t_family t]\<rparr>))
      | Fetching \<Rightarrow> (t\<lparr>t_at := Fetched (get_font_urls e (t_family t))\<rparr>, pg)
      | Fetched result \<Rightarrow>
          (case result of
             None \<Rightarrow> (t\<lparr>t_at := Finished\<rparr>, pg)
           | Some font_info \<Rightarrow>
               if all_urls font_info = {} then (t\<lparr>t_at := Finished\<rparr>, pg)
               else
                 (let font_url = set_first e (all_urls font_info)
                  in (t\<lparr>t_at := Finished\<rparr>,
                      pg\<lparr>preview_fonts := (preview_fonts pg)(t_key t \<mapsto> font_url),
                         page_fonts := (page_fonts pg)(t_key t \<mapsto> font_url)\<rparr>)))
      | Finished \<Rightarrow> (t, pg))"

text \<open>Thread \<open>i\<close> takes its next step; a schedule is the list of the threads that step.\<close>

definition step :: "'a env_scheme \<Rightarrow> nat \<Rightarrow> world \<Rightarrow> world" where
  "step e i w =
     (if i < length (threads w)
      then (let (t, pg) = thread_step e (threads w ! i) (shared w)
            in \<lparr>shared = pg, threads = (threads w)[i := t]\<rparr>)
      else w)"

fun run :: "'a env_scheme \<Rightarrow> nat list \<Rightarrow> world \<Rightarrow> world" where
  "run e [] w = w"
| "run e (i # schedule) w = run e schedule (step e i w)"

text \<open>
  \<open>filter_fonts\<close> for one listed family in a world of threads: \<open>page.run_thread\<close> adds a
  thread when the key is not in \<open>page._preview_fonts\<close>.
\<close>

definition spawn_preview :: "string \<Rightarrow> world \<Rightarrow> world" where
  "spawn_preview family_name w =
     (let font_key = font_key_of family_name
      in case preview_fonts (shared w) font_key of
           None \<Rightarrow>
             w\<lparr>threads := threads w
                  @ [\<lparr>t_family = family_name, t_key = font_key, t_at = Checking\<rparr>]\<rparr>
         | Some cached \<Rightarrow> w)"

text \<open>The number of threads whose request for the key is in flight.\<close>

definition is_fetching :: "progress \<Rightarrow> bool" where
  "is_fetching p = (case p of Fetching \<Rightarrow> True | _ \<Rightarrow> False)"

definition in_flight :: "string \<Rightarrow> world \<Rightarrow> nat" where
  "in_flight font_key w =
     length (filter (\<lambda>t. t_key t = font_key \<and> is_fetching (t_at t)) (threads w))"

definition empty_page :: page where
  "empty_page = \<lparr>preview_fonts = Map.empty, page_fonts = Map.empty, requested = []\<rparr>"

text \<open>An environment in which every request fails.\<close>

definition offline :: env where
  "offline = \<lparr>metadata_response = None, css_response = (\<lambda>url. None),
     set_first = (\<lambda>urls. [])\<rparr>"

text \<open>
  An environment that serves a catalog with the one family \<open>Roboto\<close> and, for its
  stylesheet URL, a stylesheet of one block.
\<close>

definition latin_block :: string where
  "latin_block =
     ''/* latin */ @font-face { font-weight: 700; font-style: italic; src: url(https://x/y.woff2); }''"

definition roboto_env :: env where
  "roboto_env =
     \<lparr>metadata_response = Some (catalog [entry ''Roboto'']),
      css_response = (\<lambda>request. if request = css_url ''Roboto'' then Some latin_block else None),
      set_first = (\<lambda>urls. ''https://x/y.woff2'')\<rparr>"

section \<open>Properties of the resolver\<close>

lemma str_in_iff: "str_in xs ys \<longleftrightarrow> (\<exists>pre post. ys = pre @ xs @ post)"
proof (induction ys)
  case Nil
  then show ?case by auto
next
  case (Cons c cs)
  show ?case
  proof
    assume "str_in xs (c # cs)"
    then consider "prefix xs (c # cs)" | "str_in xs cs" by auto
    then show "\<exists>pre post. c # cs = pre @ xs @ post"
    proof cases
      case 1
      then obtain post where "c # cs = xs @ post" by (auto simp: prefix_def)
      then have "c # cs = [] @ xs @ post" by simp
      then show ?thesis by blast
    next
      case 2
      with Cons.IH obtain pre post where "cs = pre @ xs @ post" by blast
      then have "c # cs = (c # pre) @ xs @ post" by simp
      then show ?thesis by blast
    qed
  next
    assume "\<exists>pre post. c # cs = pre @ xs @ post"
    then obtain pre post where eq: "c # cs = pre @ xs @ post" by blast
    show "str_in xs (c # cs)"
    proof (cases pre)
      case Nil
      with eq have "prefix xs (c # cs)" by (simp add: prefix_def)
      then show ?thesis by simp
    next
      case (Cons p pre')
      with eq have "cs = pre' @ xs @ post" by simp
      with Cons.IH have "str_in xs cs" by blast
      then show ?thesis by simp
    qed
  qed
qed

lemma str_in_Nil [simp]: "str_in [] ys"
  by (cases ys) auto

lemma exact_pass_first:
  "i < length fl \<Longrightarrow> lower (family_of (fl ! i)) = q \<Longrightarrow>
   (\<forall>j<i. lower (family_of (fl ! j)) \<noteq> q) \<Longrightarrow>
   exact_pass q fl = Some (family_of (fl ! i))"
proof (induction fl arbitrary: i)
  case Nil
  then show ?case by simp
next
  case (Cons fd fl)
  show ?case
  proof (cases i)
    case 0
    with Cons.prems show ?thesis by (simp add: family_of_def)
  next
    case (Suc k)
    with Cons.prems have "lower (family_of fd) \<noteq> q" by auto
    moreover from Suc Cons.prems
    have "exact_pass q fl = Some (family_of (fl ! k))"
      by (intro Cons.IH) auto
    ultimately show ?thesis using Suc by (simp add: family_of_def)
  qed
qed

lemma exact_pass_None:
  "exact_pass q fl = None \<longleftrightarrow> (\<forall>fd\<in>set fl. lower (family_of fd) \<noteq> q)"
  by (induction fl) (auto simp: family_of_def Let_def)

lemma substring_pass_first:
  "i < length fl \<Longrightarrow> str_in q (lower (family_of (fl ! i))) \<Longrightarrow>
   (\<forall>j<i. \<not> str_in q (lower (family_of (fl ! j)))) \<Longrightarrow>
   substring_pass q fl = Some (family_of (fl ! i))"
proof (induction fl arbitrary: i)
  case Nil
  then show ?case by simp
next
  case (Cons fd fl)
  show ?case
  proof (cases i)
    case 0
    with Cons.prems show ?thesis by (simp add: family_of_def)
  next
    case (Suc k)
    with Cons.prems have "\<not> str_in q (lower (family_of fd))" by auto
    moreover from Suc Cons.prems
    have "substring_pass q fl = Some (family_of (fl ! k))"
      by (intro Cons.IH) auto
    ultimately show ?thesis using Suc by (simp add: family_of_def)
  qed
qed

lemma substring_pass_None:
  "substring_pass q fl = None \<longleftrightarrow> (\<forall>fd\<in>set fl. \<not> str_in q (lower (family_of fd)))"
  by (induction fl) (auto simp: family_of_def Let_def)

lemma find_font_family_passes:
  assumes "(case arg of None \<Rightarrow> metadata_response e | Some m' \<Rightarrow> Some m') = Some m"
    and "map_of m ''familyMetadataList'' = Some fl"
  shows "find_font_family e q arg =
     (case exact_pass (lower q) fl of Some n \<Rightarrow> Some n
      | None \<Rightarrow> substring_pass (lower q) fl)"
proof -
  from assms(2) have "m \<noteq> []" by auto
  with assms show ?thesis
    by (cases arg)
      (simp_all add: find_font_family_def get_google_fonts_metadata_def dict_get_def Let_def)
qed

lemma map_of_catalog [simp]: "map_of (catalog fl) ''familyMetadataList'' = Some fl"
  by (simp add: catalog_def)

lemma find_font_family_catalog:
  "find_font_family e q (Some (catalog fl)) =
     (case exact_pass (lower q) fl of Some n \<Rightarrow> Some n
      | None \<Rightarrow> substring_pass (lower q) fl)"
  by (rule find_font_family_passes [where m = "catalog fl"]) simp_all

lemma lower_eq_Nil [simp]: "lower s = [] \<longleftrightarrow> s = []"
  by (simp add: lower_def)

lemma lower_Nil [simp]: "lower [] = []"
  by (simp add: lower_def)

lemma exact_pass_Some_first:
  "exact_pass q fl = Some n \<Longrightarrow>
   \<exists>i<length fl. n = family_of (fl ! i) \<and> lower n = q \<and>
     (\<forall>j<i. lower (family_of (fl ! j)) \<noteq> q)"
proof (induction fl)
  case Nil
  then show ?case by simp
next
  case (Cons fd fl)
  show ?case
  proof (cases "lower (family_of fd) = q")
    case True
    with Cons.prems have "n = family_of fd" by (simp add: family_of_def)
    with True have "n = family_of ((fd # fl) ! 0) \<and> lower n = q \<and>
        (\<forall>j<0. lower (family_of ((fd # fl) ! j)) \<noteq> q)" by simp
    then show ?thesis by blast
  next
    case False
    with Cons.prems have "exact_pass q fl = Some n" by (simp add: family_of_def)
    with Cons.IH obtain i where i: "i < length fl" "n = family_of (fl ! i)" "lower n = q"
      "\<forall>j<i. lower (family_of (fl ! j)) \<noteq> q" by blast
    have "\<forall>j<Suc i. lower (family_of ((fd # fl) ! j)) \<noteq> q"
    proof (intro allI impI)
      fix j assume "j < Suc i"
      then show "lower (family_of ((fd # fl) ! j)) \<noteq> q"
        using False i(4) by (cases j) auto
    qed
    with i have "Suc i < length (fd # fl) \<and> n = family_of ((fd # fl) ! Suc i) \<and> lower n = q \<and>
        (\<forall>j<Suc i. lower (family_of ((fd # fl) ! j)) \<noteq> q)" by simp
    then show ?thesis by blast
  qed
qed

lemma family_of_entry [simp]: "family_of (entry n) = n"
  by (simp add: family_of_def entry_def dict_get_def)

lemma find_font_family_examples:
  "find_font_family e ''Noto'' (Some (catalog [entry ''Noto Sans'', entry ''Noto''])) = Some ''Noto''"
  "find_font_family e ''Roboto'' (Some (catalog [entry ''ROBOTO'', entry ''Roboto''])) = Some ''ROBOTO''"
  "find_font_family e '''' (Some (catalog [entry ''Roboto'', entry ''''])) = Some ''''"
  by (simp_all add: find_font_family_catalog lower_def dict_get_def entry_def Let_def)

text \<open>
  C1. \<open>find_font_family\<close> runs two case-insensitive passes over the catalog. For every
  query and catalog, if some row equals the query ignoring case, the result is the name of
  the first such row in catalog order, whatever substring matches come before it; if no
  row equals the query ignoring case, the result is the name of the first row that
  contains the query ignoring case. For the catalog \<open>["Noto Sans", "Noto"]\<close> and the
  query \<open>"Noto"\<close> the result is \<open>"Noto"\<close>.
\<close>

theorem find_font_family_exact_first:
  "(map_of m ''familyMetadataList'' = Some fl \<longrightarrow> i < length fl \<longrightarrow>
      lower (family_of (fl ! i)) = lower q \<longrightarrow>
      (\<forall>j<i. lower (family_of (fl ! j)) \<noteq> lower q) \<longrightarrow>
      find_font_family e q (Some m) = Some (family_of (fl ! i)))
   \<and> (map_of m' ''familyMetadataList'' = Some fl' \<longrightarrow>
      (\<forall>fd\<in>set fl'. lower (family_of fd) \<noteq> lower q') \<longrightarrow> i' < length fl' \<longrightarrow>
      str_in (lower q') (lower (family_of (fl' ! i'))) \<longrightarrow>
      (\<forall>j<i'. \<not> str_in (lower q') (lower (family_of (fl' ! j)))) \<longrightarrow>
      find_font_family e q' (Some m') = Some (family_of (fl' ! i')))
   \<and> find_font_family e ''Noto'' (Some (catalog [entry ''Noto Sans'', entry ''Noto'']))
       = Some ''Noto''"
proof (intro conjI impI)
  assume m: "map_of m ''familyMetadataList'' = Some fl"
    and i: "i < length fl" "lower (family_of (fl ! i)) = lower q"
      "\<forall>j<i. lower (family_of (fl ! j)) \<noteq> lower q"
  from i have "exact_pass (lower q) fl = Some (family_of (fl ! i))"
    by (rule exact_pass_first)
  with m show "find_font_family e q (Some m) = Some (family_of (fl ! i))"
    by (simp add: find_font_family_passes [where m = m and fl = fl])
next
  assume m: "map_of m' ''familyMetadataList'' = Some fl'"
    and no: "\<forall>fd\<in>set fl'. lower (family_of fd) \<noteq> lower q'"
    and i: "i' < length fl'" "str_in (lower q') (lower (family_of (fl' ! i')))"
      "\<forall>j<i'. \<not> str_in (lower q') (lower (family_of (fl' ! j)))"
  from no have "exact_pass (lower q') fl' = None"
    by (simp add: exact_pass_None)
  moreover from i have "substring_pass (lower q') fl' = Some (family_of (fl' ! i'))"
    by (rule substring_pass_first)
  ultimately show "find_font_family e q' (Some m') = Some (family_of (fl' ! i'))"
    using m by (simp add: find_font_family_passes [where m = m' and fl = fl'])
next
  show "find_font_family e ''Noto'' (Some (catalog [entry ''Noto Sans'', entry ''Noto'']))
       = Some ''Noto''"
    by (rule find_font_family_examples)
qed

theorem find_font_family_exact_first_witness:
  "find_font_family offline ''Noto'' (Some (catalog [entry ''Noto Sans'', entry ''Noto'']))
     = Some ''Noto''
   \<and> str_in (lower ''Noto'') (lower (family_of ([entry ''Noto Sans'', entry ''Noto''] ! 0)))
   \<and> find_font_family offline ''sans'' (Some (catalog [entry ''Noto'', entry ''Noto Sans'']))
     = Some ''Noto Sans''"
proof -
  let ?fl = "[entry ''Noto Sans'', entry ''Noto'']"
  let ?fl' = "[entry ''Noto'', entry ''Noto Sans'']"
  have a1: "(1::nat) < length ?fl" by simp
  have a2: "lower (family_of (?fl ! 1)) = lower ''Noto''" by simp
  have a3: "\<forall>j<1::nat. lower (family_of (?fl ! j)) \<noteq> lower ''Noto''"
    by (simp add: lower_def)
  have b1: "\<forall>fd\<in>set ?fl'. lower (family_of fd) \<noteq> lower ''sans''"
    by (simp add: lower_def)
  have b2: "(1::nat) < length ?fl'" by simp
  have b3: "str_in (lower ''sans'') (lower (family_of (?fl' ! 1)))"
    by (simp add: lower_def)
  have b4: "\<forall>j<1::nat. \<not> str_in (lower ''sans'') (lower (family_of (?fl' ! j)))"
    by (simp add: lower_def)
  have c: "str_in (lower ''Noto'') (lower (family_of (?fl ! 0)))"
    by (simp add: lower_def)
  note t = find_font_family_exact_first [where m = "catalog ?fl" and fl = ?fl and i = 1
      and q = "''Noto''" and m' = "catalog ?fl'" and fl' = ?fl' and i' = 1
      and q' = "''sans''" and e = offline]
  from t a1 a2 a3 have "find_font_family offline ''Noto'' (Some (catalog ?fl)) = Some ''Noto''"
    by simp
  moreover from t b1 b2 b3 b4
  have "find_font_family offline ''sans'' (Some (catalog ?fl')) = Some ''Noto Sans''"
    by simp
  ultimately show ?thesis using c by simp
qed

text \<open>
  C7 as stated: resolving the name of any catalog row returns exactly that name, also
  when two rows differ only in case. This fails for the second of two such rows: the
  exact pass stops at the first row that equals the query ignoring case.
\<close>

theorem find_font_family_reflexive_counterexample:
  "family_of ([entry ''ROBOTO'', entry ''Roboto''] ! 1) = ''Roboto''
   \<and> find_font_family offline ''Roboto'' (Some (catalog [entry ''ROBOTO'', entry ''Roboto'']))
       = Some ''ROBOTO''
   \<and> find_font_family offline ''Roboto'' (Some (catalog [entry ''ROBOTO'', entry ''Roboto'']))
       \<noteq> Some ''Roboto''"
  by (simp add: find_font_family_examples)

text \<open>
  C7 amended. For every catalog and every row E of it, resolving E's name returns the
  name of the first row in catalog order that equals E's name ignoring case; the returned
  name equals E's name ignoring case, and it is exactly E's name when no earlier row
  equals it ignoring case while being spelled differently.
\<close>

theorem find_font_family_reflexive_up_to_case:
  "map_of m ''familyMetadataList'' = Some fl \<longrightarrow> i < length fl \<longrightarrow>
     (\<exists>k\<le>i. find_font_family e (family_of (fl ! i)) (Some m) = Some (family_of (fl ! k))
        \<and> lower (family_of (fl ! k)) = lower (family_of (fl ! i))
        \<and> (\<forall>j<k. lower (family_of (fl ! j)) \<noteq> lower (family_of (fl ! i))))
     \<and> ((\<forall>j<i. lower (family_of (fl ! j)) = lower (family_of (fl ! i)) \<longrightarrow>
              family_of (fl ! j) = family_of (fl ! i)) \<longrightarrow>
        find_font_family e (family_of (fl ! i)) (Some m) = Some (family_of (fl ! i)))"
proof (intro impI)
  assume m: "map_of m ''familyMetadataList'' = Some fl" and i: "i < length fl"
  let ?q = "lower (family_of (fl ! i))"
  from i have "\<not> (\<forall>fd\<in>set fl. lower (family_of fd) \<noteq> ?q)" by auto
  then obtain n where n: "exact_pass ?q fl = Some n"
    using exact_pass_None [of ?q fl] by (cases "exact_pass ?q fl") auto
  from exact_pass_Some_first [OF n] obtain k where k: "k < length fl"
    "n = family_of (fl ! k)" "lower n = ?q" "\<forall>j<k. lower (family_of (fl ! j)) \<noteq> ?q"
    by blast
  have ki: "k \<le> i"
  proof (rule ccontr)
    assume "\<not> k \<le> i"
    then have "i < k" by simp
    with k(4) show False by blast
  qed
  have res: "find_font_family e (family_of (fl ! i)) (Some m) = Some (family_of (fl ! k))"
    using m n k(2) by (simp add: find_font_family_passes [where m = m and fl = fl])
  have first: "\<exists>k\<le>i. find_font_family e (family_of (fl ! i)) (Some m) = Some (family_of (fl ! k))
        \<and> lower (family_of (fl ! k)) = ?q
        \<and> (\<forall>j<k. lower (family_of (fl ! j)) \<noteq> ?q)"
    using ki res k by blast
  have second: "(\<forall>j<i. lower (family_of (fl ! j)) = ?q \<longrightarrow>
              family_of (fl ! j) = family_of (fl ! i)) \<longrightarrow>
        find_font_family e (family_of (fl ! i)) (Some m) = Some (family_of (fl ! i))"
  proof
    assume same: "\<forall>j<i. lower (family_of (fl ! j)) = ?q \<longrightarrow>
              family_of (fl ! j) = family_of (fl ! i)"
    have "family_of (fl ! k) = family_of (fl ! i)"
    proof (cases "k = i")
      case True
      then show ?thesis by simp
    next
      case False
      with ki have "k < i" by simp
      with same k(2,3) show ?thesis by simp
    qed
    with res show "find_font_family e (family_of (fl ! i)) (Some m) = Some (family_of (fl ! i))"
      by simp
  qed
  from first second show "(\<exists>k\<le>i. find_font_family e (family_of (fl ! i)) (Some m) = Some (family_of (fl ! k))
        \<and> lower (family_of (fl ! k)) = lower (family_of (fl ! i))
        \<and> (\<forall>j<k. lower (family_of (fl ! j)) \<noteq> lower (family_of (fl ! i))))
     \<and> ((\<forall>j<i. lower (family_of (fl ! j)) = lower (family_of (fl ! i)) \<longrightarrow>
              family_of (fl ! j) = family_of (fl ! i)) \<longrightarrow>
        find_font_family e (family_of (fl ! i)) (Some m) = Some (family_of (fl ! i)))"
    by blast
qed

theorem find_font_family_reflexive_up_to_case_witness:
  "find_font_family offline ''Roboto'' (Some (catalog [entry ''Noto Sans'', entry ''Roboto'']))
     = Some ''Roboto''"
proof -
  let ?fl = "[entry ''Noto Sans'', entry ''Roboto'']"
  have a1: "map_of (catalog ?fl) ''familyMetadataList'' = Some ?fl" by simp
  have a2: "(1::nat) < length ?fl" by simp
  have a3: "\<forall>j<1::nat. lower (family_of (?fl ! j)) = lower (family_of (?fl ! 1)) \<longrightarrow>
              family_of (?fl ! j) = family_of (?fl ! 1)"
    by (simp add: lower_def)
  from find_font_family_reflexive_up_to_case [where m = "catalog ?fl" and fl = ?fl and i = 1
      and e = offline] a1 a2 a3
  have "find_font_family offline (family_of (?fl ! 1)) (Some (catalog ?fl))
      = Some (family_of (?fl ! 1))"
    by blast
  then show ?thesis by simp
qed

lemma substring_pass_empty_query:
  "substring_pass [] (fd # fl) = Some (family_of fd)"
  by (simp add: family_of_def)

lemma exact_pass_empty_query_None:
  "(\<forall>fd\<in>set fl. family_of fd \<noteq> []) \<Longrightarrow> exact_pass [] fl = None"
  by (simp add: exact_pass_None)

lemma exact_pass_empty_query_Some:
  assumes "\<exists>fd\<in>set fl. family_of fd = []"
  shows "exact_pass [] fl = Some []"
proof -
  from assms have "exact_pass [] fl \<noteq> None" by (simp add: exact_pass_None)
  then obtain n where n: "exact_pass [] fl = Some n" by auto
  from exact_pass_Some_first [OF n] have "lower n = []" by blast
  with n show ?thesis by simp
qed

lemma find_font_family_unfold:
  "find_font_family e q arg =
     (case (case arg of None \<Rightarrow> metadata_response e | Some m \<Rightarrow> Some m) of
        None \<Rightarrow> None
      | Some m \<Rightarrow>
          (case exact_pass (lower q) (dict_get m ''familyMetadataList'' []) of
             Some n \<Rightarrow> Some n
           | None \<Rightarrow> substring_pass (lower q) (dict_get m ''familyMetadataList'' [])))"
  by (cases arg; cases "metadata_response e")
    (auto simp: find_font_family_def get_google_fonts_metadata_def dict_get_def Let_def
      split: option.splits)

text \<open>
  C10 as stated: for the empty query and every non-empty catalog whose first row has a
  non-empty name, the result is the first row's name. A later row with an empty name is
  found by the exact pass first.
\<close>

theorem find_font_family_empty_query_counterexample:
  "[entry ''Roboto'', entry ''''] \<noteq> []
   \<and> family_of (hd [entry ''Roboto'', entry '''']) = ''Roboto''
   \<and> find_font_family offline '''' (Some (catalog [entry ''Roboto'', entry '''']))
       = Some ''''
   \<and> find_font_family offline '''' (Some (catalog [entry ''Roboto'', entry '''']))
       \<noteq> Some (family_of (hd [entry ''Roboto'', entry '''']))"
  by (simp add: find_font_family_examples)

text \<open>
  C10 amended. For the empty query and every non-empty catalog in which no row has an
  empty name, the result is the first row's name, because the empty string is contained
  in every name; when some row has an empty (or missing) name, the exact pass returns the
  empty name. The result is \<open>None\<close> only when the metadata is unavailable or the
  catalog is empty.
\<close>

theorem find_font_family_empty_query:
  "(map_of m ''familyMetadataList'' = Some fl \<longrightarrow> fl \<noteq> [] \<longrightarrow>
      (\<forall>fd\<in>set fl. family_of fd \<noteq> []) \<longrightarrow>
      find_font_family e [] (Some m) = Some (family_of (hd fl)))
   \<and> (map_of m' ''familyMetadataList'' = Some fl' \<longrightarrow>
      (\<exists>fd\<in>set fl'. family_of fd = []) \<longrightarrow>
      find_font_family e [] (Some m') = Some [])
   \<and> (find_font_family e [] arg = None \<longleftrightarrow>
        (case (case arg of None \<Rightarrow> metadata_response e | Some d \<Rightarrow> Some d) of
           None \<Rightarrow> True
         | Some d \<Rightarrow> dict_get d ''familyMetadataList'' [] = []))"
proof (intro conjI impI)
  assume m: "map_of m ''familyMetadataList'' = Some fl" and ne: "fl \<noteq> []"
    and names: "\<forall>fd\<in>set fl. family_of fd \<noteq> []"
  from ne obtain fd rest where fl: "fl = fd # rest" by (cases fl) auto
  have "exact_pass [] fl = None" using names by (rule exact_pass_empty_query_None)
  moreover have "substring_pass [] fl = Some (family_of (hd fl))"
    unfolding fl by (simp add: substring_pass_empty_query del: substring_pass.simps)
  ultimately show "find_font_family e [] (Some m) = Some (family_of (hd fl))"
    using m by (simp add: find_font_family_passes [where m = m and fl = fl])
next
  assume m: "map_of m' ''familyMetadataList'' = Some fl'"
    and ex: "\<exists>fd\<in>set fl'. family_of fd = []"
  from ex have "exact_pass [] fl' = Some []" by (rule exact_pass_empty_query_Some)
  with m show "find_font_family e [] (Some m') = Some []"
    by (simp add: find_font_family_passes [where m = m' and fl = fl'])
next
  show "find_font_family e [] arg = None \<longleftrightarrow>
        (case (case arg of None \<Rightarrow> metadata_response e | Some d \<Rightarrow> Some d) of
           None \<Rightarrow> True
         | Some d \<Rightarrow> dict_get d ''familyMetadataList'' [] = [])"
  proof (cases "case arg of None \<Rightarrow> metadata_response e | Some d \<Rightarrow> Some d")
    case None
    then show ?thesis by (simp add: find_font_family_unfold)
  next
    case (Some d)
    show ?thesis
    proof (cases "dict_get d ''familyMetadataList'' []")
      case Nil
      with Some show ?thesis by (simp add: find_font_family_unfold)
    next
      case (Cons fd rest)
      have "substring_pass [] (fd # rest) = Some (family_of fd)"
        by (rule substring_pass_empty_query)
      with Some Cons show ?thesis
        by (simp add: find_font_family_unfold del: substring_pass.simps exact_pass.simps
            split: option.splits)
    qed
  qed
qed

theorem find_font_family_empty_query_witness:
  "find_font_family offline [] (Some (catalog [entry ''Roboto'', entry ''Noto'']))
     = Some ''Roboto''
   \<and> find_font_family offline [] (Some (catalog [entry ''Roboto'', entry []])) = Some []"
proof -
  let ?fl = "[entry ''Roboto'', entry ''Noto'']"
  let ?fl' = "[entry ''Roboto'', entry []]"
  note t = find_font_family_empty_query [where m = "catalog ?fl" and fl = ?fl
      and m' = "catalog ?fl'" and fl' = ?fl' and e = offline]
  have a1: "map_of (catalog ?fl) ''familyMetadataList'' = Some ?fl" by simp
  have a2: "?fl \<noteq> []" by simp
  have a3: "\<forall>fd\<in>set ?fl. family_of fd \<noteq> []" by simp
  have b1: "map_of (catalog ?fl') ''familyMetadataList'' = Some ?fl'" by simp
  have b2: "\<exists>fd\<in>set ?fl'. family_of fd = []" by simp
  from t a1 a2 a3 have "find_font_family offline [] (Some (catalog ?fl)) = Some (family_of (hd ?fl))"
    by blast
  moreover from t b1 b2 have "find_font_family offline [] (Some (catalog ?fl')) = Some []"
    by blast
  ultimately show ?thesis by simp
qed

section \<open>Properties of the stylesheet parser\<close>

lemmas pattern_defs =
  face_pattern_def weight_pattern_def style_pattern_def url_pattern_def lits_def
  is_space_def is_digit_def is_word_def not_char_def

lemmas parse_defs =
  parse_css_def parse_block_def group_pair_def group1_def strip_def format_type_def Let_def
  re_findall.simps

lemma get_font_urls_parse:
  "find_font_family e q None = Some c \<Longrightarrow> c \<noteq> [] \<Longrightarrow>
   css_response e (css_url c) = Some body \<Longrightarrow>
   get_font_urls e q = Some (parse_css q body)"
  by (simp add: get_font_urls_def)

lemma parse_latin_block:
  "parse_css fam
     ''/* latin */ @font-face { font-weight: 700; font-style: italic; src: url(https://x/y.woff2); }''
   = \<lparr>family = fam,
      fonts = [\<lparr>subset = ''latin'', weight = PyStr ''700'', style = ''italic'',
                url = ''https://x/y.woff2'', format = ''woff2''\<rparr>],
      all_urls = {''https://x/y.woff2''}\<rparr>"
  by (simp add: pattern_defs parse_defs)

lemma find_font_family_roboto_env:
  "find_font_family roboto_env ''roboto'' None = Some ''Roboto''"
  by (simp add: find_font_family_unfold roboto_env_def catalog_def entry_def dict_get_def
      lower_def)

lemma get_font_urls_roboto_env:
  "get_font_urls roboto_env ''roboto'' = Some (parse_css ''roboto'' latin_block)"
  by (rule get_font_urls_parse [OF find_font_family_roboto_env])
    (simp_all add: roboto_env_def)

text \<open>
  C2 as stated: when resolution and the stylesheet request succeed, the \<open>family\<close> field
  of the result is the canonical name of the catalog row. For the query \<open>roboto\<close> the
  row is \<open>Roboto\<close>, and the field is \<open>roboto\<close>.
\<close>

theorem get_font_urls_family_counterexample:
  "find_font_family roboto_env ''roboto'' None = Some ''Roboto''
   \<and> map_option family (get_font_urls roboto_env ''roboto'') = Some ''roboto''
   \<and> map_option family (get_font_urls roboto_env ''roboto'') \<noteq> Some ''Roboto''"
  by (simp add: find_font_family_roboto_env get_font_urls_roboto_env parse_css_def Let_def)

text \<open>
  C2 amended. For every query for which resolution gives a non-empty name and the
  stylesheet request succeeds, \<open>get_font_urls\<close> returns a result whose \<open>family\<close> field is
  the query as it was passed in; the canonical name is used for the stylesheet URL only,
  so the field is the canonical name exactly when the query is spelled like it.
\<close>

theorem get_font_urls_family_is_query:
  "find_font_family e q None = Some c \<longrightarrow> c \<noteq> [] \<longrightarrow>
   css_response e (css_url c) = Some body \<longrightarrow>
     (\<exists>r. get_font_urls e q = Some r \<and> family r = q \<and> (family r = c \<longleftrightarrow> q = c))"
proof (intro impI)
  assume "find_font_family e q None = Some c" "c \<noteq> []"
    "css_response e (css_url c) = Some body"
  then have "get_font_urls e q = Some (parse_css q body)"
    by (rule get_font_urls_parse)
  moreover have "family (parse_css q body) = q"
    by (simp add: parse_css_def Let_def)
  ultimately show "\<exists>r. get_font_urls e q = Some r \<and> family r = q \<and> (family r = c \<longleftrightarrow> q = c)"
    by simp
qed

theorem get_font_urls_family_is_query_witness:
  "\<exists>r. get_font_urls roboto_env ''roboto'' = Some r \<and> family r = ''roboto''"
proof -
  have a1: "find_font_family roboto_env ''roboto'' None = Some ''Roboto''"
    by (rule find_font_family_roboto_env)
  have a2: "''Roboto'' \<noteq> []" by simp
  have a3: "css_response roboto_env (css_url ''Roboto'') = Some latin_block"
    by (simp add: roboto_env_def)
  from get_font_urls_family_is_query [where e = roboto_env and q = "''roboto''"
      and c = "''Roboto''" and body = latin_block] a1 a2 a3
  show ?thesis by blast
qed

text \<open>
  C3 as stated: the one block gives one face with the weight 700 as an integer. The
  weight stored is the matched text.
\<close>

theorem parse_latin_block_counterexample:
  "fonts (parse_css ''Roboto''
     ''/* latin */ @font-face { font-weight: 700; font-style: italic; src: url(https://x/y.woff2); }'')
   \<noteq> [\<lparr>subset = ''latin'', weight = PyInt 700, style = ''italic'',
         url = ''https://x/y.woff2'', format = ''woff2''\<rparr>]"
  by (simp add: parse_latin_block)

text \<open>
  C3 amended. Parsing a stylesheet body that consists of the one block
  \<^verbatim>\<open>/* latin */ @font-face { font-weight: 700; font-style: italic; src: url(https://x/y.woff2); }\<close>
  gives a \<open>fonts\<close> sequence of exactly one face with subset \<open>latin\<close>, weight \<open>"700"\<close>
  (the matched digits as text, not an integer), style \<open>italic\<close>, url
  \<open>https://x/y.woff2\<close> and format \<open>woff2\<close>.
\<close>

theorem parse_latin_block_fonts:
  "fonts (parse_css fam
     ''/* latin */ @font-face { font-weight: 700; font-style: italic; src: url(https://x/y.woff2); }'')
   = [\<lparr>subset = ''latin'', weight = PyStr ''700'', style = ''italic'',
        url = ''https://x/y.woff2'', format = ''woff2''\<rparr>]"
  by (simp add: parse_latin_block)

lemma collect_faces_map_filter:
  "collect_faces ms acc = acc @ List.map_filter (\<lambda>(s, c). parse_block s c) ms"
  by (induction ms acc rule: collect_faces.induct)
    (auto simp: List.map_filter_simps split: option.splits)

lemma fonts_parse_css:
  "fonts (parse_css fam body) =
     List.map_filter (\<lambda>(s, c). parse_block s c)
       (map group_pair (re_findall face_pattern body))"
  by (simp add: parse_css_def Let_def collect_faces_map_filter)

lemma fonts_parse_css_block:
  "f \<in> set (fonts (parse_css fam body)) \<Longrightarrow>
   \<exists>gs\<in>set (re_findall face_pattern body).
     parse_block (fst (group_pair gs)) (snd (group_pair gs)) = Some f"
  by (auto simp: fonts_parse_css List.map_filter_def case_prod_beta)

lemma parse_block_format:
  "parse_block s c = Some f \<Longrightarrow> format f = format_type (url f)"
  by (auto simp: parse_block_def Let_def split: option.splits)

lemma format_type_declarative:
  "format_type u =
     (if \<exists>pre post. u = pre @ ''.woff2'' @ post then ''woff2''
      else if \<exists>pre post. u = pre @ ''.woff'' @ post then ''woff''
      else ''ttf'')"
  unfolding format_type_def str_in_iff by (rule refl)

section \<open>Properties of the preview cache\<close>

lemma load_font_resolved:
  "preview_fonts pg font_key = Some cached \<Longrightarrow> load_font e fam font_key pg = pg"
  by (simp add: load_font_def)

lemma request_preview_resolved:
  "preview_fonts pg (font_key_of fam) = Some cached \<Longrightarrow> request_preview e fam pg = pg"
  by (simp add: request_preview_def)

lemma load_font_other_key:
  "k \<noteq> font_key \<Longrightarrow> preview_fonts (load_font e fam font_key pg) k = preview_fonts pg k"
  by (simp add: load_font_def Let_def split: option.splits)

lemma load_font_requested:
  "requested (load_font e fam font_key pg) =
     (case preview_fonts pg font_key of Some cached \<Rightarrow> requested pg
      | None \<Rightarrow> requested pg @ [fam])"
  by (simp add: load_font_def Let_def split: option.splits)

lemma request_preview_keeps:
  assumes "preview_fonts pg k = Some cached"
  shows "preview_fonts (request_preview e f pg) k = Some cached"
proof (cases "font_key_of f = k")
  case True
  with assms show ?thesis by (simp add: request_preview_def)
next
  case False
  then have "preview_fonts (load_font e f (font_key_of f) pg) k = preview_fonts pg k"
    by (intro load_font_other_key) simp
  with assms show ?thesis
    by (simp add: request_preview_def Let_def split: option.splits)
qed

lemma request_preview_requested:
  assumes "preview_fonts pg k = Some cached"
  shows "filter (\<lambda>g. font_key_of g = k) (requested (request_preview e f pg)) =
         filter (\<lambda>g. font_key_of g = k) (requested pg)"
proof (cases "font_key_of f = k")
  case True
  with assms show ?thesis by (simp add: request_preview_def)
next
  case False
  then show ?thesis
    by (simp add: request_preview_def load_font_requested Let_def split: option.splits)
qed

lemma request_preview_session:
  "preview_fonts pg k = Some cached \<Longrightarrow>
   preview_fonts (foldl (\<lambda>p f. request_preview e f p) pg fams) k = Some cached
   \<and> filter (\<lambda>g. font_key_of g = k)
        (requested (foldl (\<lambda>p f. request_preview e f p) pg fams)) =
      filter (\<lambda>g. font_key_of g = k) (requested pg)"
proof (induction fams arbitrary: pg)
  case Nil
  then show ?case by simp
next
  case (Cons f fams)
  have kept: "preview_fonts (request_preview e f pg) k = Some cached"
    using Cons.prems by (rule request_preview_keeps)
  have "filter (\<lambda>g. font_key_of g = k) (requested (request_preview e f pg)) =
        filter (\<lambda>g. font_key_of g = k) (requested pg)"
    using Cons.prems by (rule request_preview_requested)
  with Cons.IH [OF kept] show ?case by simp
qed

text \<open>
  C9. When the key of a family is in \<open>page._preview_fonts\<close>, a preview request for the
  family calls \<open>get_font_urls\<close> for no family and changes nothing: the page, with the cached
  URL and the log of requests, is the same afterwards, also when the body of
  \<open>load_font\<close> is entered. Through every further sequence of preview requests, each run
  to its end, the key keeps its URL and no request is issued for a family with this key.
\<close>

theorem request_preview_idempotent:
  "preview_fonts pg (font_key_of fam) = Some cached \<longrightarrow>
     request_preview e fam pg = pg
     \<and> load_font e fam (font_key_of fam) pg = pg
     \<and> (\<forall>fams.
          preview_fonts (foldl (\<lambda>p f. request_preview e f p) pg fams) (font_key_of fam)
            = Some cached
          \<and> filter (\<lambda>g. font_key_of g = font_key_of fam)
               (requested (foldl (\<lambda>p f. request_preview e f p) pg fams)) =
             filter (\<lambda>g. font_key_of g = font_key_of fam) (requested pg))"
  using request_preview_resolved load_font_resolved request_preview_session by blast

theorem request_preview_idempotent_witness:
  "preview_fonts (request_preview roboto_env ''Roboto'' empty_page) (font_key_of ''Roboto'')
     = Some ''https://x/y.woff2''
   \<and> request_preview roboto_env ''Roboto'' (request_preview roboto_env ''Roboto'' empty_page)
     = request_preview roboto_env ''Roboto'' empty_page
   \<and> requested (request_preview roboto_env ''Roboto''
        (request_preview roboto_env ''Roboto'' empty_page)) = [''Roboto'']"
proof -
  let ?pg = "request_preview roboto_env ''Roboto'' empty_page"
  have fam: "find_font_family roboto_env ''Roboto'' None = Some ''Roboto''"
    by (simp add: find_font_family_unfold roboto_env_def catalog_def entry_def dict_get_def
        lower_def)
  have "get_font_urls roboto_env ''Roboto'' = Some (parse_css ''Roboto'' latin_block)"
    by (rule get_font_urls_parse [OF fam]) (simp_all add: roboto_env_def)
  then have info: "get_font_urls roboto_env ''Roboto'' =
      Some \<lparr>family = ''Roboto'',
        fonts = [\<lparr>subset = ''latin'', weight = PyStr ''700'', style = ''italic'',
                  url = ''https://x/y.woff2'', format = ''woff2''\<rparr>],
        all_urls = {''https://x/y.woff2''}\<rparr>"
    by (simp add: latin_block_def parse_latin_block)
  have first: "set_first roboto_env {''https://x/y.woff2''} = ''https://x/y.woff2''"
    by (simp add: roboto_env_def)
  have cached: "preview_fonts ?pg (font_key_of ''Roboto'') = Some ''https://x/y.woff2''"
    by (simp add: request_preview_def load_font_def empty_page_def info first Let_def)
  have log: "requested ?pg = [''Roboto'']"
    by (simp add: request_preview_def load_font_def empty_page_def info first Let_def)
  from request_preview_idempotent [where pg = ?pg and fam = "''Roboto''"
      and cached = "''https://x/y.woff2''" and e = roboto_env] cached
  have "request_preview roboto_env ''Roboto'' ?pg = ?pg" by blast
  with cached log show ?thesis by simp
qed

lemma single_thread_load_font:
  "shared (run e [0, 0, 0]
     \<lparr>shared = pg, threads = [\<lparr>t_family = fam, t_key = k, t_at = Checking\<rparr>]\<rparr>)
   = load_font e fam k pg"
  by (cases "preview_fonts pg k"; cases "get_font_urls e fam")
    (simp_all add: step_def thread_step_def load_font_def Let_def)

lemma two_previews_spawned:
  "spawn_preview ''Roboto'' (spawn_preview ''Roboto'' \<lparr>shared = empty_page, threads = []\<rparr>)
   = \<lparr>shared = empty_page,
      threads = [\<lparr>t_family = ''Roboto'', t_key = font_key_of ''Roboto'', t_at = Checking\<rparr>,
                 \<lparr>t_family = ''Roboto'', t_key = font_key_of ''Roboto'', t_at = Checking\<rparr>]\<rparr>"
  by (simp add: spawn_preview_def empty_page_def Let_def)

text \<open>
  C8 on the code. Two preview requests for \<open>Roboto\<close> are made while the key is not in
  the cache, so two \<open>load_font\<close> threads start. When both run their check before either
  has written, both find the key missing and both call \<open>get_font_urls\<close>: two requests
  for the one key are in flight, and \<open>get_font_urls\<close> is called twice.
\<close>

theorem load_font_check_then_act:
  "in_flight (font_key_of ''Roboto'')
     (run roboto_env [0, 1]
        (spawn_preview ''Roboto''
          (spawn_preview ''Roboto'' \<lparr>shared = empty_page, threads = []\<rparr>))) = 2
   \<and> requested (shared
     (run roboto_env [0, 1]
        (spawn_preview ''Roboto''
          (spawn_preview ''Roboto'' \<lparr>shared = empty_page, threads = []\<rparr>))))
     = [''Roboto'', ''Roboto'']"
  unfolding two_previews_spawned
  by (simp add: step_def thread_step_def empty_page_def in_flight_def is_fetching_def Let_def)

section \<open>Properties of the matcher\<close>

lemma re_match_Lit_Some:
  "re_match (Lit c # r) s gs opn = Some res \<Longrightarrow>
   \<exists>xs. s = c # xs \<and> re_match r xs gs opn = Some res"
  by (cases s) (auto split: if_splits)

lemma re_match_Star_Some:
  "re_match (Rep Star cls # r) s gs opn = Some res \<Longrightarrow>
   \<exists>a b. s = a @ b \<and> (\<forall>x\<in>set a. cls x) \<and> re_match r b gs opn = Some res"
proof (induction s)
  case Nil
  then show ?case by simp
next
  case (Cons x xs)
  show ?case
  proof (cases "cls x \<and> re_match (Rep Star cls # r) xs gs opn \<noteq> None")
    case True
    with Cons.prems have "re_match (Rep Star cls # r) xs gs opn = Some res" by auto
    with Cons.IH obtain a b where "xs = a @ b" "\<forall>x\<in>set a. cls x"
      "re_match r b gs opn = Some res" by blast
    with True have "x # xs = (x # a) @ b \<and> (\<forall>y\<in>set (x # a). cls y)
        \<and> re_match r b gs opn = Some res" by simp
    then show ?thesis by blast
  next
    case False
    with Cons.prems have "re_match r (x # xs) gs opn = Some res"
      by (auto split: if_splits option.splits)
    then have "x # xs = [] @ (x # xs) \<and> (\<forall>y\<in>set []. cls y)
        \<and> re_match r (x # xs) gs opn = Some res" by simp
    then show ?thesis by blast
  qed
qed

lemma re_match_Plus_Some:
  assumes "re_match (Rep Plus cls # r) s gs opn = Some res"
  shows "\<exists>a b. s = a @ b \<and> a \<noteq> [] \<and> (\<forall>x\<in>set a. cls x) \<and> re_match r b gs opn = Some res"
proof -
  from assms obtain x xs where s: "s = x # xs" "cls x"
    and "re_match (Rep Star cls # r) xs gs opn = Some res"
    by (cases s) (auto split: if_splits)
  from re_match_Star_Some [OF this(3)] obtain a b where "xs = a @ b" "\<forall>x\<in>set a. cls x"
    "re_match r b gs opn = Some res" by blast
  with s have "s = (x # a) @ b \<and> x # a \<noteq> [] \<and> (\<forall>y\<in>set (x # a). cls y)
      \<and> re_match r b gs opn = Some res" by simp
  then show ?thesis by blast
qed

lemma re_match_LazyPlus_Some:
  "re_match (Rep LazyPlus cls # r) s gs opn = Some res \<Longrightarrow>
   \<exists>a b. s = a @ b \<and> a \<noteq> [] \<and> (\<forall>x\<in>set a. cls x) \<and> re_match r b gs opn = Some res"
proof (induction s)
  case Nil
  then show ?case by simp
next
  case (Cons x xs)
  from Cons.prems have x: "cls x" by (auto split: if_splits)
  show ?case
  proof (cases "re_match r xs gs opn")
    case (Some res')
    with Cons.prems x have "res' = res" by simp
    with Some x have "x # xs = [x] @ xs \<and> [x] \<noteq> [] \<and> (\<forall>y\<in>set [x]. cls y)
        \<and> re_match r xs gs opn = Some res" by simp
    then show ?thesis by blast
  next
    case None
    with Cons.prems x have "re_match (Rep LazyPlus cls # r) xs gs opn = Some res" by simp
    with Cons.IH obtain a b where "xs = a @ b" "\<forall>x\<in>set a. cls x"
      "re_match r b gs opn = Some res" by blast
    with x have "x # xs = (x # a) @ b \<and> x # a \<noteq> [] \<and> (\<forall>y\<in>set (x # a). cls y)
        \<and> re_match r b gs opn = Some res" by simp
    then show ?thesis by blast
  qed
qed

lemma re_match_lits_Some:
  "re_match (lits p @ r) s gs opn = Some res \<Longrightarrow>
   \<exists>xs. s = p @ xs \<and> re_match r xs gs opn = Some res"
proof (induction p arbitrary: s)
  case Nil
  then show ?case by (simp add: lits_def)
next
  case (Cons c p)
  from Cons.prems have "re_match (Lit c # (lits p @ r)) s gs opn = Some res"
    by (simp add: lits_def)
  from re_match_Lit_Some [OF this] obtain xs where s: "s = c # xs"
    and "re_match (lits p @ r) xs gs opn = Some res" by blast
  from Cons.IH [OF this(2)] s show ?case by auto
qed

lemma re_match_lits:
  "re_match (lits p @ r) (p @ xs) gs opn = re_match r xs gs opn"
  by (induction p) (simp_all add: lits_def)


lemma re_match_url_Some:
  assumes "re_match url_pattern s gs None = Some (gs', rest)"
  shows "\<exists>ws u. s = ''src:'' @ ws @ ''url('' @ u @ CHR '')'' # rest
           \<and> (\<forall>c\<in>set ws. is_space c) \<and> u \<noteq> [] \<and> CHR '')'' \<notin> set u \<and> gs' = gs @ [u]"
proof -
  let ?r3 = "[GroupOpen, Rep Plus (not_char CHR '')''), GroupClose, Lit CHR '')'']"
  from assms have "re_match (lits ''src:'' @ (Rep Star is_space # lits ''url('' @ ?r3)) s gs None
      = Some (gs', rest)"
    by (simp add: url_pattern_def)
  from re_match_lits_Some [OF this] obtain s1 where s: "s = ''src:'' @ s1"
    and m1: "re_match (Rep Star is_space # lits ''url('' @ ?r3) s1 gs None = Some (gs', rest)"
    by blast
  from re_match_Star_Some [OF m1] obtain ws s2 where s1: "s1 = ws @ s2"
    and ws: "\<forall>c\<in>set ws. is_space c"
    and m2: "re_match (lits ''url('' @ ?r3) s2 gs None = Some (gs', rest)"
    by blast
  from re_match_lits_Some [OF m2] obtain s3 where s2: "s2 = ''url('' @ s3"
    and m3: "re_match ?r3 s3 gs None = Some (gs', rest)"
    by blast
  from m3 have "re_match (Rep Plus (not_char CHR '')'') # [GroupClose, Lit CHR '')'']) s3 gs (Some s3)
      = Some (gs', rest)" by simp
  from re_match_Plus_Some [OF this] obtain u s4 where s3: "s3 = u @ s4" and u: "u \<noteq> []"
    "\<forall>c\<in>set u. not_char CHR '')'' c"
    and m4: "re_match [GroupClose, Lit CHR '')''] s4 gs (Some s3) = Some (gs', rest)"
    by blast
  from m4 s3 have "re_match [Lit CHR '')''] s4 (gs @ [u]) None = Some (gs', rest)" by simp
  from re_match_Lit_Some [OF this] have s4: "s4 = CHR '')'' # rest" and gs': "gs' = gs @ [u]"
    by auto
  from u(2) have "CHR '')'' \<notin> set u" by (auto simp: not_char_def)
  with s s1 s2 s3 s4 ws u(1) gs' show ?thesis by auto
qed

lemma re_match_face_Some:
  assumes "re_match face_pattern s [] None = Some (gs, rest)"
  shows "\<exists>a g1 g2. s = a @ g2 @ CHR ''}'' # rest \<and> gs = [g1, g2]"
proof -
  let ?r9 = "[GroupOpen, Rep Plus (not_char CHR ''}''), GroupClose, Lit CHR ''}'']"
  let ?r8 = "Lit CHR ''{'' # ?r9"
  let ?r7 = "Rep Star is_space # ?r8"
  let ?r6 = "lits ''@font-face'' @ ?r7"
  let ?r5 = "Rep Star is_space # ?r6"
  let ?r4 = "lits ''*/'' @ ?r5"
  let ?r3 = "Rep Star is_space # ?r4"
  let ?r2 = "Rep LazyPlus (not_char CHR ''*'') # GroupClose # ?r3"
  let ?r1 = "Rep Star is_space # GroupOpen # ?r2"
  from assms have "re_match (lits ''/*'' @ ?r1) s [] None = Some (gs, rest)"
    by (simp add: face_pattern_def)
  from re_match_lits_Some [OF this] obtain s1 where s: "s = ''/*'' @ s1"
    and m1: "re_match ?r1 s1 [] None = Some (gs, rest)" by blast
  from re_match_Star_Some [OF m1] obtain w1 s2 where s1: "s1 = w1 @ s2"
    and "re_match (GroupOpen # ?r2) s2 [] None = Some (gs, rest)" by blast
  then have m2: "re_match ?r2 s2 [] (Some s2) = Some (gs, rest)" by simp
  from re_match_LazyPlus_Some [OF m2] obtain g1 s3 where s2: "s2 = g1 @ s3"
    and "re_match (GroupClose # ?r3) s3 [] (Some s2) = Some (gs, rest)" by blast
  then have m3: "re_match ?r3 s3 [g1] None = Some (gs, rest)" by simp
  from re_match_Star_Some [OF m3] obtain w2 s4 where s3: "s3 = w2 @ s4"
    and m4: "re_match ?r4 s4 [g1] None = Some (gs, rest)" by blast
  from re_match_lits_Some [OF m4] obtain s5 where s4: "s4 = ''*/'' @ s5"
    and m5: "re_match ?r5 s5 [g1] None = Some (gs, rest)" by blast
  from re_match_Star_Some [OF m5] obtain w3 s6 where s5: "s5 = w3 @ s6"
    and m6: "re_match ?r6 s6 [g1] None = Some (gs, rest)" by blast
  from re_match_lits_Some [OF m6] obtain s7 where s6: "s6 = ''@font-face'' @ s7"
    and m7: "re_match ?r7 s7 [g1] None = Some (gs, rest)" by blast
  from re_match_Star_Some [OF m7] obtain w4 s8 where s7: "s7 = w4 @ s8"
    and m8: "re_match ?r8 s8 [g1] None = Some (gs, rest)" by blast
  from re_match_Lit_Some [OF m8] obtain s9 where s8: "s8 = CHR ''{'' # s9"
    and "re_match ?r9 s9 [g1] None = Some (gs, rest)" by blast
  then have m9: "re_match (Rep Plus (not_char CHR ''}'') # [GroupClose, Lit CHR ''}'']) s9 [g1]
      (Some s9) = Some (gs, rest)" by simp
  from re_match_Plus_Some [OF m9] obtain g2 s10 where s9: "s9 = g2 @ s10"
    and "re_match [GroupClose, Lit CHR ''}''] s10 [g1] (Some s9) = Some (gs, rest)" by blast
  with s9 have "re_match [Lit CHR ''}''] s10 [g1, g2] None = Some (gs, rest)" by simp
  from re_match_Lit_Some [OF this] have s10: "s10 = CHR ''}'' # rest" and gs: "gs = [g1, g2]"
    by auto
  let ?a = "''/*'' @ w1 @ g1 @ w2 @ ''*/'' @ w3 @ ''@font-face'' @ w4 @ ''{''"
  from s s1 s2 s3 s4 s5 s6 s7 s8 s9 s10 have "s = ?a @ g2 @ CHR ''}'' # rest" by simp
  with gs show ?thesis by blast
qed


lemma re_match_Star_greedy:
  "(\<forall>c\<in>set ws. cls c) \<Longrightarrow> (case t of [] \<Rightarrow> True | x # xs \<Rightarrow> \<not> cls x) \<Longrightarrow>
   re_match r t gs opn = Some res \<Longrightarrow>
   re_match (Rep Star cls # r) (ws @ t) gs opn = Some res"
proof (induction ws)
  case Nil
  then show ?case by (cases t) auto
next
  case (Cons w ws)
  then have "re_match (Rep Star cls # r) (ws @ t) gs opn = Some res" by simp
  with Cons.prems show ?case by simp
qed

lemma re_match_Plus_greedy:
  assumes "ws \<noteq> []" "\<forall>c\<in>set ws. cls c" "case t of [] \<Rightarrow> True | x # xs \<Rightarrow> \<not> cls x"
    and "re_match r t gs opn = Some res"
  shows "re_match (Rep Plus cls # r) (ws @ t) gs opn = Some res"
proof -
  from assms(1) obtain w ws' where ws: "ws = w # ws'" by (cases ws) auto
  with assms(2) have "\<forall>c\<in>set ws'. cls c" "cls w" by auto
  from re_match_Star_greedy [OF this(1) assms(3,4)] ws \<open>cls w\<close> show ?thesis by simp
qed

lemma re_match_url_occurrence:
  assumes ws: "\<forall>c\<in>set ws. is_space c" and u: "u \<noteq> []" "CHR '')'' \<notin> set u"
  shows "re_match url_pattern (''src:'' @ ws @ ''url('' @ u @ CHR '')'' # post) gs None
         = Some (gs @ [u], post)"
proof -
  let ?s3 = "u @ CHR '')'' # post"
  have "re_match [GroupClose, Lit CHR '')''] (CHR '')'' # post) gs (Some ?s3)
      = Some (gs @ [u], post)" by simp
  moreover have "\<forall>c\<in>set u. not_char CHR '')'' c" using u(2) by (auto simp: not_char_def)
  moreover have "case CHR '')'' # post of [] \<Rightarrow> True | x # xs \<Rightarrow> \<not> not_char CHR '')'' x"
    by (simp add: not_char_def)
  ultimately have "re_match (Rep Plus (not_char CHR '')'') # [GroupClose, Lit CHR '')'']) ?s3 gs
      (Some ?s3) = Some (gs @ [u], post)"
    using u(1) by (intro re_match_Plus_greedy) auto
  then have m3: "re_match [GroupOpen, Rep Plus (not_char CHR '')''), GroupClose, Lit CHR '')'']
      ?s3 gs None = Some (gs @ [u], post)" by simp
  let ?r3 = "[GroupOpen, Rep Plus (not_char CHR '')''), GroupClose, Lit CHR '')'']"
  have m2: "re_match (lits ''url('' @ ?r3) (''url('' @ ?s3) gs None = Some (gs @ [u], post)"
    using m3 by (simp only: re_match_lits)
  have "case ''url('' @ ?s3 of [] \<Rightarrow> True | x # xs \<Rightarrow> \<not> is_space x"
    by (simp add: is_space_def)
  from re_match_Star_greedy [OF ws this m2]
  have m1: "re_match (Rep Star is_space # lits ''url('' @ ?r3) (ws @ ''url('' @ ?s3) gs None
      = Some (gs @ [u], post)" .
  have "re_match (lits ''src:'' @ (Rep Star is_space # lits ''url('' @ ?r3))
      (''src:'' @ (ws @ ''url('' @ ?s3)) gs None = Some (gs @ [u], post)"
    using m1 by (simp only: re_match_lits)
  then show ?thesis by (simp add: url_pattern_def)
qed

lemma re_search_Some:
  "re_search r s = Some gs \<Longrightarrow>
   \<exists>a b rest. s = a @ b \<and> re_match r b [] None = Some (gs, rest)"
proof (induction s)
  case Nil
  then have "\<exists>rest. re_match r [] [] None = Some (gs, rest)" by auto
  then show ?case by auto
next
  case (Cons x xs)
  show ?case
  proof (cases "re_match r (x # xs) [] None")
    case None
    with Cons.prems have "re_search r xs = Some gs" by simp
    with Cons.IH obtain a b rest where "xs = a @ b" "re_match r b [] None = Some (gs, rest)"
      by blast
    then have "x # xs = (x # a) @ b \<and> re_match r b [] None = Some (gs, rest)" by simp
    then show ?thesis by blast
  next
    case (Some res)
    with Cons.prems have "re_match r (x # xs) [] None = Some (gs, snd res)"
      by (cases res) auto
    then have "x # xs = [] @ (x # xs) \<and> re_match r (x # xs) [] None = Some (gs, snd res)"
      by simp
    then show ?thesis by blast
  qed
qed

lemma re_match_suffix:
  "re_match r s gs opn = Some (gs', rest) \<Longrightarrow> \<exists>c. s = c @ rest"
proof (induction r arbitrary: s gs opn)
  case Nil
  then show ?case by simp
next
  case (Cons a r)
  have step: "\<exists>c. s = c @ rest"
    if "s = p @ b" "re_match r b g o' = Some (gs', rest)" for p b g o'
  proof -
    from Cons.IH [OF that(2)] obtain c where "b = c @ rest" by blast
    with that(1) have "s = (p @ c) @ rest" by simp
    then show ?thesis by blast
  qed
  show ?case
  proof (cases a)
    case (Lit c)
    with Cons.prems have "re_match (Lit c # r) s gs opn = Some (gs', rest)" by simp
    from re_match_Lit_Some [OF this] obtain xs where "s = [c] @ xs"
      "re_match r xs gs opn = Some (gs', rest)" by auto
    then show ?thesis by (rule step)
  next
    case (Rep q cls)
    show ?thesis
    proof (cases q)
      case Star
      with Rep Cons.prems have "re_match (Rep Star cls # r) s gs opn = Some (gs', rest)" by simp
      from re_match_Star_Some [OF this] obtain p b where "s = p @ b"
        "re_match r b gs opn = Some (gs', rest)" by blast
      then show ?thesis by (rule step)
    next
      case Plus
      with Rep Cons.prems have "re_match (Rep Plus cls # r) s gs opn = Some (gs', rest)" by simp
      from re_match_Plus_Some [OF this] obtain p b where "s = p @ b"
        "re_match r b gs opn = Some (gs', rest)" by blast
      then show ?thesis by (rule step)
    next
      case LazyPlus
      with Rep Cons.prems have "re_match (Rep LazyPlus cls # r) s gs opn = Some (gs', rest)"
        by simp
      from re_match_LazyPlus_Some [OF this] obtain p b where "s = p @ b"
        "re_match r b gs opn = Some (gs', rest)" by blast
      then show ?thesis by (rule step)
    qed
  next
    case GroupOpen
    with Cons.prems have "s = [] @ s" "re_match r s gs (Some s) = Some (gs', rest)" by simp_all
    then show ?thesis by (rule step)
  next
    case GroupClose
    with Cons.prems have "s = [] @ s"
      "re_match r s (gs @ [case opn of None \<Rightarrow> [] | Some s0 \<Rightarrow> take (length s0 - length s) s0]) None
        = Some (gs', rest)" by simp_all
    then show ?thesis by (rule step)
  qed
qed

lemma re_findall_None:
  "re_match r s [] None = None \<Longrightarrow>
   re_findall r s = (case s of [] \<Rightarrow> [] | x # xs \<Rightarrow> re_findall r xs)"
  by (subst re_findall.simps) simp

lemma re_findall_Some:
  "re_match r s [] None = Some (gs, rest) \<Longrightarrow> length rest < length s \<Longrightarrow>
   re_findall r s = gs # re_findall r rest"
  by (subst re_findall.simps) simp

lemma re_findall_Some_empty:
  "re_match r s [] None = Some (gs, rest) \<Longrightarrow> \<not> length rest < length s \<Longrightarrow>
   re_findall r s = gs # (case s of [] \<Rightarrow> [] | x # xs \<Rightarrow> re_findall r xs)"
  by (subst re_findall.simps) simp

lemma re_findall_sound:
  "gs \<in> set (re_findall r body) \<Longrightarrow>
   \<exists>pre s rest. body = pre @ s \<and> re_match r s [] None = Some (gs, rest)"
proof (induction "length body" arbitrary: body rule: less_induct)
  case less
  note IH = less.hyps
  show ?case
  proof (cases "re_match r body [] None")
    case None
    with less.prems obtain x xs where s: "body = x # xs" and mem: "gs \<in> set (re_findall r xs)"
      by (cases body) (auto simp: re_findall_None)
    from s have "length xs < length body" by simp
    from IH [OF this mem] obtain pre t rest where "xs = pre @ t"
      "re_match r t [] None = Some (gs, rest)" by blast
    with s have "body = (x # pre) @ t \<and> re_match r t [] None = Some (gs, rest)" by simp
    then show ?thesis by blast
  next
    case (Some res)
    obtain g rest where res: "res = (g, rest)" by (cases res)
    show ?thesis
    proof (cases "gs = g")
      case True
      with Some res have "body = [] @ body \<and> re_match r body [] None = Some (gs, rest)" by simp
      then show ?thesis by blast
    next
      case False
      show ?thesis
      proof (cases "length rest < length body")
        case True
        with less.prems Some res False have mem: "gs \<in> set (re_findall r rest)"
          by (simp add: re_findall_Some)
        from IH [OF True mem] obtain pre t rest' where
          t: "rest = pre @ t" "re_match r t [] None = Some (gs, rest')" by blast
        from Some res re_match_suffix obtain c where "body = c @ rest" by blast
        with t have "body = (c @ pre) @ t \<and> re_match r t [] None = Some (gs, rest')" by simp
        then show ?thesis by blast
      next
        case nl: False
        with less.prems Some res False obtain x xs where s: "body = x # xs"
          and mem: "gs \<in> set (re_findall r xs)"
          by (cases body) (auto simp: re_findall_Some_empty)
        from s have "length xs < length body" by simp
        from IH [OF this mem] obtain pre t rest' where "xs = pre @ t"
          "re_match r t [] None = Some (gs, rest')" by blast
        with s have "body = (x # pre) @ t \<and> re_match r t [] None = Some (gs, rest')" by simp
        then show ?thesis by blast
      qed
    qed
  qed
qed

lemma re_findall_match_nonempty:
  assumes "re_match r s [] None = Some (gs, rest)"
  shows "re_findall r s \<noteq> []"
proof (cases "length rest < length s")
  case True
  from re_findall_Some [OF assms True] show ?thesis by simp
next
  case False
  from re_findall_Some_empty [OF assms False] show ?thesis by simp
qed

lemma re_findall_nonempty:
  "re_match r s [] None = Some (gs, rest) \<Longrightarrow> re_findall r (pre @ s) \<noteq> []"
proof (induction pre)
  case Nil
  then show ?case by (simp add: re_findall_match_nonempty)
next
  case (Cons x pre)
  show ?case
  proof (cases "re_match r (x # pre @ s) [] None")
    case None
    from re_findall_None [OF None] have "re_findall r (x # pre @ s) = re_findall r (pre @ s)"
      by simp
    with Cons show ?thesis by simp
  next
    case (Some res)
    obtain g t where "res = (g, t)" by (cases res)
    with Some have "re_match r (x # pre @ s) [] None = Some (g, t)" by simp
    from re_findall_match_nonempty [OF this] show ?thesis by simp
  qed
qed

lemma re_findall_skip:
  "(\<forall>i<length pre. re_match r (drop i (pre @ s)) [] None = None) \<Longrightarrow>
   re_findall r (pre @ s) = re_findall r s"
proof (induction pre)
  case Nil
  then show ?case by simp
next
  case (Cons x pre)
  from Cons.prems have "re_match r (drop 0 ((x # pre) @ s)) [] None = None" by blast
  then have "re_match r (x # pre @ s) [] None = None" by simp
  from re_findall_None [OF this]
  have first: "re_findall r ((x # pre) @ s) = re_findall r (pre @ s)" by simp
  have "\<forall>i<length pre. re_match r (drop i (pre @ s)) [] None = None"
  proof (intro allI impI)
    fix i assume "i < length pre"
    then have "Suc i < length (x # pre)" by simp
    with Cons.prems have "re_match r (drop (Suc i) ((x # pre) @ s)) [] None = None" by blast
    then show "re_match r (drop i (pre @ s)) [] None = None" by simp
  qed
  from Cons.IH [OF this] first show ?case by simp
qed

section \<open>The format of a face\<close>

lemma re_search_match:
  "re_match r s [] None = Some (gs, rest) \<Longrightarrow> re_search r s = Some gs"
  by (cases s) simp_all

lemma parse_block_Some:
  "re_search url_pattern content = Some gs \<Longrightarrow>
   \<exists>f. parse_block sg content = Some f \<and> url f = group1 gs
     \<and> format f = format_type (group1 gs)"
  by (simp add: parse_block_def Let_def)

lemma parse_block_None:
  "parse_block sg content = None \<longleftrightarrow> re_search url_pattern content = None"
  by (simp add: parse_block_def Let_def split: option.splits)

lemma re_search_url_block:
  assumes "u \<noteq> []" "CHR '')'' \<notin> set u"
  shows "re_search url_pattern (''src: url('' @ u @ '')'') = Some [u]"
proof -
  have "\<forall>c\<in>set '' ''. is_space c" by (simp add: is_space_def)
  from re_match_url_occurrence [OF this assms, of "[]" "[]"]
  have "re_match url_pattern (''src: url('' @ u @ '')'') [] None = Some ([u], [])" by simp
  then show ?thesis by (rule re_search_match)
qed

text \<open>
  C6. The format is a function of the URL alone. For every URL string a block can carry
  (not empty, without a closing parenthesis), the block \<open>src: url(URL)\<close> gives a face with
  that URL whose format is \<open>woff2\<close> when the URL contains \<open>.woff2\<close>, else \<open>woff\<close>
  when it contains \<open>.woff\<close>, else \<open>ttf\<close>. Whenever the URL pattern matches in a block,
  the block gives a face with the matched URL and the format so derived from it. Every
  face of a parsed stylesheet has the format so derived from its URL, and two faces with
  the same URL, from whatever stylesheets, carry the same format.
\<close>

theorem format_function_of_url:
  "(u \<noteq> [] \<longrightarrow> CHR '')'' \<notin> set u \<longrightarrow>
      (\<exists>f. parse_block sg (''src: url('' @ u @ '')'') = Some f \<and> url f = u \<and>
         format f =
           (if \<exists>pre post. u = pre @ ''.woff2'' @ post then ''woff2''
            else if \<exists>pre post. u = pre @ ''.woff'' @ post then ''woff''
            else ''ttf'')))
   \<and> (re_search url_pattern content = Some gs \<longrightarrow>
      (\<exists>f. parse_block sg' content = Some f \<and> url f = group1 gs \<and>
         format f =
           (if \<exists>pre post. url f = pre @ ''.woff2'' @ post then ''woff2''
            else if \<exists>pre post. url f = pre @ ''.woff'' @ post then ''woff''
            else ''ttf'')))
   \<and> (f \<in> set (fonts (parse_css fam body)) \<longrightarrow>
      format f =
        (if \<exists>pre post. url f = pre @ ''.woff2'' @ post then ''woff2''
         else if \<exists>pre post. url f = pre @ ''.woff'' @ post then ''woff''
         else ''ttf''))
   \<and> (fa \<in> set (fonts (parse_css fama bodya)) \<longrightarrow>
      fb \<in> set (fonts (parse_css famb bodyb)) \<longrightarrow> url fa = url fb \<longrightarrow>
      format fa = format fb)"
proof -
  have fmt: "format g = format_type (url g)" if "g \<in> set (fonts (parse_css a b))" for g a b
    using fonts_parse_css_block [OF that] parse_block_format by blast
  have found: "\<exists>f. parse_block t c = Some f \<and> url f = v \<and>
         format f =
           (if \<exists>pre post. v = pre @ ''.woff2'' @ post then ''woff2''
            else if \<exists>pre post. v = pre @ ''.woff'' @ post then ''woff''
            else ''ttf'')"
    if "re_search url_pattern c = Some g" "group1 g = v" for t c g v
  proof -
    from parse_block_Some [OF that(1)] obtain f where f: "parse_block t c = Some f"
      "url f = group1 g" "format f = format_type (group1 g)" by blast
    from f(3) that(2) have "format f = format_type v" by simp
    then have "format f =
           (if \<exists>pre post. v = pre @ ''.woff2'' @ post then ''woff2''
            else if \<exists>pre post. v = pre @ ''.woff'' @ post then ''woff''
            else ''ttf'')" by (simp only: format_type_declarative)
    moreover from f(2) that(2) have "url f = v" by simp
    ultimately show ?thesis using f(1) by blast
  qed
  show ?thesis
  proof (intro conjI impI)
    assume "u \<noteq> []" "CHR '')'' \<notin> set u"
    then have "re_search url_pattern (''src: url('' @ u @ '')'') = Some [u]"
      by (rule re_search_url_block)
    moreover have "group1 [u] = u" by (simp add: group1_def)
    ultimately show "\<exists>f. parse_block sg (''src: url('' @ u @ '')'') = Some f
        \<and> url f = u \<and>
         format f =
           (if \<exists>pre post. u = pre @ ''.woff2'' @ post then ''woff2''
            else if \<exists>pre post. u = pre @ ''.woff'' @ post then ''woff''
            else ''ttf'')"
      by (rule found)
  next
    assume "re_search url_pattern content = Some gs"
    from found [OF this refl, of sg'] obtain f where f: "parse_block sg' content = Some f"
      "url f = group1 gs"
      "format f =
           (if \<exists>pre post. group1 gs = pre @ ''.woff2'' @ post then ''woff2''
            else if \<exists>pre post. group1 gs = pre @ ''.woff'' @ post then ''woff''
            else ''ttf'')" by blast
    from f(3) have "format f =
           (if \<exists>pre post. url f = pre @ ''.woff2'' @ post then ''woff2''
            else if \<exists>pre post. url f = pre @ ''.woff'' @ post then ''woff''
            else ''ttf'')" by (simp only: f(2))
    with f(1,2) show "\<exists>f. parse_block sg' content = Some f \<and> url f = group1 gs \<and>
         format f =
           (if \<exists>pre post. url f = pre @ ''.woff2'' @ post then ''woff2''
            else if \<exists>pre post. url f = pre @ ''.woff'' @ post then ''woff''
            else ''ttf'')"
      by blast
  next
    assume "f \<in> set (fonts (parse_css fam body))"
    then have "format f = format_type (url f)" by (rule fmt)
    then show "format f =
        (if \<exists>pre post. url f = pre @ ''.woff2'' @ post then ''woff2''
         else if \<exists>pre post. url f = pre @ ''.woff'' @ post then ''woff''
         else ''ttf'')"
      by (simp only: format_type_declarative)
  next
    assume "fa \<in> set (fonts (parse_css fama bodya))"
      and "fb \<in> set (fonts (parse_css famb bodyb))" and "url fa = url fb"
    then show "format fa = format fb" by (simp add: fmt)
  qed
qed

lemma contains_ext:
  "(\<exists>pre post. ''https://x/y.woff2'' = pre @ ''.woff2'' @ post)"
  "(\<exists>pre post. ''https://x/y.woff'' = pre @ ''.woff'' @ post)"
  "\<not> (\<exists>pre post. ''https://x/y.woff'' = pre @ ''.woff2'' @ post)"
  "\<not> (\<exists>pre post. ''https://x/y.ttf'' = pre @ ''.woff2'' @ post)"
  "\<not> (\<exists>pre post. ''https://x/y.ttf'' = pre @ ''.woff'' @ post)"
  using str_in_iff [of "''.woff2''" "''https://x/y.woff2''"]
    str_in_iff [of "''.woff''" "''https://x/y.woff''"]
    str_in_iff [of "''.woff2''" "''https://x/y.woff''"]
    str_in_iff [of "''.woff2''" "''https://x/y.ttf''"]
    str_in_iff [of "''.woff''" "''https://x/y.ttf''"]
  by simp_all

theorem format_function_of_url_witness:
  "map_option format (parse_block ''latin'' ''src: url(https://x/y.woff2)'') = Some ''woff2''
   \<and> map_option format (parse_block ''latin'' ''src: url(https://x/y.woff)'') = Some ''woff''
   \<and> map_option format (parse_block ''latin'' ''src: url(https://x/y.ttf)'') = Some ''ttf''
   \<and> map_option url (parse_block ''latin'' ''src: url(https://x/y.ttf)'')
       = Some ''https://x/y.ttf''"
proof -
  have a: "''https://x/y.woff2'' \<noteq> []" "CHR '')'' \<notin> set ''https://x/y.woff2''" by simp_all
  have b: "''https://x/y.woff'' \<noteq> []" "CHR '')'' \<notin> set ''https://x/y.woff''" by simp_all
  have c: "''https://x/y.ttf'' \<noteq> []" "CHR '')'' \<notin> set ''https://x/y.ttf''" by simp_all
  from format_function_of_url [where u = "''https://x/y.woff2''" and sg = "''latin''"] a
  obtain f1 where f1: "parse_block ''latin'' (''src: url('' @ ''https://x/y.woff2'' @ '')'') = Some f1"
    "format f1 =
           (if \<exists>pre post. ''https://x/y.woff2'' = pre @ ''.woff2'' @ post then ''woff2''
            else if \<exists>pre post. ''https://x/y.woff2'' = pre @ ''.woff'' @ post then ''woff''
            else ''ttf'')" by blast
  from format_function_of_url [where u = "''https://x/y.woff''" and sg = "''latin''"] b
  obtain f2 where f2: "parse_block ''latin'' (''src: url('' @ ''https://x/y.woff'' @ '')'') = Some f2"
    "format f2 =
           (if \<exists>pre post. ''https://x/y.woff'' = pre @ ''.woff2'' @ post then ''woff2''
            else if \<exists>pre post. ''https://x/y.woff'' = pre @ ''.woff'' @ post then ''woff''
            else ''ttf'')" by blast
  from format_function_of_url [where u = "''https://x/y.ttf''" and sg = "''latin''"] c
  obtain f3 where f3: "parse_block ''latin'' (''src: url('' @ ''https://x/y.ttf'' @ '')'') = Some f3"
    "url f3 = ''https://x/y.ttf''"
    "format f3 =
           (if \<exists>pre post. ''https://x/y.ttf'' = pre @ ''.woff2'' @ post then ''woff2''
            else if \<exists>pre post. ''https://x/y.ttf'' = pre @ ''.woff'' @ post then ''woff''
            else ''ttf'')" by blast
  from f1(2) have g1: "format f1 = ''woff2''" by (simp only: contains_ext if_True)
  from f2(2) have g2: "format f2 = ''woff''" by (simp only: contains_ext if_True if_False)
  from f3(3) have g3: "format f3 = ''ttf''" by (simp only: contains_ext if_False)
  from f1(1) g1 f2(1) g2 f3(1,2) g3 show ?thesis by simp
qed

section \<open>The URLs of the whole response text\<close>

lemma re_match_url_iff:
  "re_match url_pattern s [] None = Some (gs, rest) \<longleftrightarrow>
     (\<exists>u. gs = [u] \<and> url_occurrence s u rest)"
proof
  assume "re_match url_pattern s [] None = Some (gs, rest)"
  from re_match_url_Some [OF this] show "\<exists>u. gs = [u] \<and> url_occurrence s u rest"
    by (auto simp: url_occurrence_def)
next
  assume "\<exists>u. gs = [u] \<and> url_occurrence s u rest"
  then obtain u ws where gs: "gs = [u]" and s: "s = ''src:'' @ ws @ ''url('' @ u @ '')'' @ rest"
    and w: "\<forall>c\<in>set ws. is_space c" "u \<noteq> []" "CHR '')'' \<notin> set u"
    by (auto simp: url_occurrence_def)
  from re_match_url_occurrence [OF w, of rest "[]"] s gs
  show "re_match url_pattern s [] None = Some (gs, rest)" by simp
qed

lemma re_match_url_None:
  "re_match url_pattern s [] None = None \<longleftrightarrow> (\<forall>u rest. \<not> url_occurrence s u rest)"
proof
  assume n: "re_match url_pattern s [] None = None"
  show "\<forall>u rest. \<not> url_occurrence s u rest"
  proof (intro allI notI)
    fix u rest assume "url_occurrence s u rest"
    then have "re_match url_pattern s [] None = Some ([u], rest)"
      by (simp add: re_match_url_iff)
    with n show False by simp
  qed
next
  assume a: "\<forall>u rest. \<not> url_occurrence s u rest"
  show "re_match url_pattern s [] None = None"
  proof (cases "re_match url_pattern s [] None")
    case None
    then show ?thesis .
  next
    case (Some res)
    obtain gs rest where "res = (gs, rest)" by (cases res)
    with Some have "re_match url_pattern s [] None = Some (gs, rest)" by simp
    then have "\<exists>u. gs = [u] \<and> url_occurrence s u rest" by (simp only: re_match_url_iff)
    with a show ?thesis by blast
  qed
qed

lemma re_search_None_iff:
  "re_search r s = None \<longleftrightarrow> (\<forall>i\<le>length s. re_match r (drop i s) [] None = None)"
proof (induction s)
  case Nil
  show ?case by simp
next
  case (Cons x xs)
  let ?P = "\<lambda>t. re_match r t [] None = None"
  have all: "(\<forall>i\<le>length (x # xs). ?P (drop i (x # xs)))
      \<longleftrightarrow> ?P (x # xs) \<and> (\<forall>i\<le>length xs. ?P (drop i xs))"
  proof
    assume a: "\<forall>i\<le>length (x # xs). ?P (drop i (x # xs))"
    have "?P (drop 0 (x # xs))" using a by blast
    moreover have "\<forall>i\<le>length xs. ?P (drop i xs)"
    proof (intro allI impI)
      fix i assume "i \<le> length xs"
      then have "Suc i \<le> length (x # xs)" by simp
      with a have "?P (drop (Suc i) (x # xs))" by blast
      then show "?P (drop i xs)" by simp
    qed
    ultimately show "?P (x # xs) \<and> (\<forall>i\<le>length xs. ?P (drop i xs))" by simp
  next
    assume a: "?P (x # xs) \<and> (\<forall>i\<le>length xs. ?P (drop i xs))"
    show "\<forall>i\<le>length (x # xs). ?P (drop i (x # xs))"
    proof (intro allI impI)
      fix i assume i: "i \<le> length (x # xs)"
      show "?P (drop i (x # xs))"
      proof (cases i)
        case 0
        with a show ?thesis by simp
      next
        case (Suc j)
        with i have "j \<le> length xs" by simp
        with a have "?P (drop j xs)" by blast
        with Suc show ?thesis by simp
      qed
    qed
  qed
  show ?case
  proof (cases "re_match r (x # xs) [] None")
    case None
    then have "re_search r (x # xs) = re_search r xs" by simp
    then have "re_search r (x # xs) = None \<longleftrightarrow> (\<forall>i\<le>length xs. ?P (drop i xs))"
      by (simp only: Cons.IH)
    with None show ?thesis by (simp only: all) simp
  next
    case (Some res)
    obtain g rest where "res = (g, rest)" by (cases res)
    with Some have "re_search r (x # xs) = Some g" by simp
    then have "re_search r (x # xs) \<noteq> None" by simp
    moreover from Some have "\<not> ?P (x # xs)" by simp
    ultimately show ?thesis by (simp only: all) simp
  qed
qed

lemma re_findall_no_match:
  "(\<forall>i\<le>length s. re_match r (drop i s) [] None = None) \<Longrightarrow> re_findall r s = []"
proof (induction s)
  case Nil
  then have "re_match r [] [] None = None" by simp
  from re_findall_None [OF this] show ?case by simp
next
  case (Cons x xs)
  from Cons.prems have "re_match r (drop 0 (x # xs)) [] None = None" by blast
  then have n: "re_match r (x # xs) [] None = None" by simp
  have "\<forall>i\<le>length xs. re_match r (drop i xs) [] None = None"
  proof (intro allI impI)
    fix i assume "i \<le> length xs"
    then have "Suc i \<le> length (x # xs)" by simp
    with Cons.prems have "re_match r (drop (Suc i) (x # xs)) [] None = None" by blast
    then show "re_match r (drop i xs) [] None = None" by simp
  qed
  from Cons.IH [OF this] re_findall_None [OF n] show ?case by simp
qed

lemma all_urls_parse_css:
  "all_urls (parse_css fam body) = set (map group1 (re_findall url_pattern body))"
  by (simp add: parse_css_def Let_def)

lemma all_urls_none:
  assumes "\<forall>i\<le>length body. \<forall>u rest. \<not> url_occurrence (drop i body) u rest"
  shows "all_urls (parse_css fam body) = {}"
proof -
  from assms have "\<forall>i\<le>length body. re_match url_pattern (drop i body) [] None = None"
    by (simp add: re_match_url_None)
  from re_findall_no_match [OF this] show ?thesis by (simp add: all_urls_parse_css)
qed

lemma all_urls_first:
  assumes skip: "\<forall>i<length pre. \<forall>v rest. \<not> url_occurrence (drop i (pre @ s)) v rest"
    and occ: "url_occurrence s u post"
  shows "all_urls (parse_css fam (pre @ s)) = insert u (all_urls (parse_css fam' post))"
proof -
  from skip have "\<forall>i<length pre. re_match url_pattern (drop i (pre @ s)) [] None = None"
    by (simp add: re_match_url_None)
  from re_findall_skip [OF this]
  have a: "re_findall url_pattern (pre @ s) = re_findall url_pattern s" .
  from occ have m: "re_match url_pattern s [] None = Some ([u], post)"
    by (simp add: re_match_url_iff)
  from occ have "length post < length s" by (auto simp: url_occurrence_def)
  from re_findall_Some [OF m this] a
  have "re_findall url_pattern (pre @ s) = [u] # re_findall url_pattern post" by simp
  then show ?thesis by (simp add: all_urls_parse_css group1_def)
qed

lemma all_urls_sound:
  assumes "u \<in> all_urls (parse_css fam body)"
  shows "\<exists>pre s rest. body = pre @ s \<and> url_occurrence s u rest"
proof -
  from assms obtain gs where gs: "gs \<in> set (re_findall url_pattern body)" "u = group1 gs"
    by (auto simp: all_urls_parse_css)
  from re_findall_sound [OF gs(1)] obtain pre s rest where b: "body = pre @ s"
    and m: "re_match url_pattern s [] None = Some (gs, rest)" by blast
  from m obtain v where "gs = [v]" "url_occurrence s v rest"
    by (auto simp: re_match_url_iff)
  with gs(2) have "url_occurrence s u rest" by (simp add: group1_def)
  with b show ?thesis by blast
qed

lemma parse_block_None_iff:
  "parse_block sg content = None \<longleftrightarrow>
     (\<forall>i\<le>length content. \<forall>u rest. \<not> url_occurrence (drop i content) u rest)"
  by (simp add: parse_block_None re_search_None_iff re_match_url_None)

lemma parse_block_url_occurrence:
  assumes "parse_block sg content = Some f"
  shows "\<exists>a b rest. content = a @ b \<and> url_occurrence b (url f) rest"
proof -
  from assms obtain g where g: "re_search url_pattern content = Some g" "url f = group1 g"
    by (auto simp: parse_block_def Let_def split: option.splits)
  from re_search_Some [OF g(1)] obtain a b rest where c: "content = a @ b"
    and m: "re_match url_pattern b [] None = Some (g, rest)" by blast
  from m obtain v where "g = [v]" "url_occurrence b v rest"
    by (auto simp: re_match_url_iff)
  with g(2) have "url_occurrence b (url f) rest" by (simp add: group1_def)
  with c show ?thesis by blast
qed

lemma fonts_url_occurrence:
  assumes "f \<in> set (fonts (parse_css fam body))"
  shows "\<exists>pre s rest. body = pre @ s \<and> url_occurrence s (url f) rest"
proof -
  from fonts_parse_css_block [OF assms] obtain gs where gs: "gs \<in> set (re_findall face_pattern body)"
    and pb: "parse_block (fst (group_pair gs)) (snd (group_pair gs)) = Some f" by blast
  from re_findall_sound [OF gs] obtain p0 s0 r0 where b: "body = p0 @ s0"
    and m: "re_match face_pattern s0 [] None = Some (gs, r0)" by blast
  from re_match_face_Some [OF m] obtain a1 g1 g2 where s0: "s0 = a1 @ g2 @ CHR ''}'' # r0"
    and g: "gs = [g1, g2]" by blast
  from g have "snd (group_pair gs) = g2" by (simp add: group_pair_def)
  with pb have "parse_block (fst (group_pair gs)) g2 = Some f" by simp
  from parse_block_url_occurrence [OF this] obtain a b rest where g2: "g2 = a @ b"
    and occ: "url_occurrence b (url f) rest" by blast
  from occ have "url_occurrence (b @ CHR ''}'' # r0) (url f) (rest @ CHR ''}'' # r0)"
    by (auto simp: url_occurrence_def)
  moreover from b s0 g2 have "body = (p0 @ a1 @ a) @ (b @ CHR ''}'' # r0)" by simp
  ultimately show ?thesis by blast
qed

lemma url_occurrence_all_urls_nonempty:
  assumes "url_occurrence s u rest"
  shows "all_urls (parse_css fam (pre @ s)) \<noteq> {}"
proof -
  from assms have "re_match url_pattern s [] None = Some ([u], rest)"
    by (simp add: re_match_url_iff)
  from re_findall_nonempty [OF this] show ?thesis by (simp add: all_urls_parse_css)
qed

lemma fonts_nonempty_all_urls:
  assumes "fonts (parse_css fam body) \<noteq> []"
  shows "all_urls (parse_css fam body) \<noteq> {}"
proof -
  from assms obtain f where "f \<in> set (fonts (parse_css fam body))"
    by (cases "fonts (parse_css fam body)") auto
  from fonts_url_occurrence [OF this] obtain pre s rest where "body = pre @ s"
    "url_occurrence s (url f) rest" by blast
  with url_occurrence_all_urls_nonempty show ?thesis by blast
qed

lemma parse_block_outside_url:
  "parse_css fam ''/* latin */ @font-face { font-weight: 400; } src: url(https://x/z.ttf)''
   = \<lparr>family = fam, fonts = [], all_urls = {''https://x/z.ttf''}\<rparr>"
  by (simp add: pattern_defs parse_defs)

lemma parse_bare_url:
  "parse_css fam ''src: url(https://x/z.ttf)''
   = \<lparr>family = fam, fonts = [], all_urls = {''https://x/z.ttf''}\<rparr>"
  by (simp add: pattern_defs parse_defs)

text \<open>
  C5. For every stylesheet body, when \<open>fonts\<close> is not empty then \<open>all_urls\<close> is not
  empty: the URL of every face occurs in the body as the argument of a \<open>src: url(...)\<close>,
  that is, some suffix of the body starts with \<open>src:\<close>, white space, \<open>url(\<close>, the URL
  and a closing parenthesis. \<open>all_urls\<close> can be non-empty while \<open>fonts\<close> is empty, as
  for the body \<open>src: url(https://x/z.ttf)\<close>, which has no block; and \<open>fonts\<close> is not
  empty for the body of one block with a URL.
\<close>

theorem fonts_nonempty_all_urls_nonempty:
  "(fonts (parse_css fam body) \<noteq> [] \<longrightarrow> all_urls (parse_css fam body) \<noteq> {})
   \<and> (f \<in> set (fonts (parse_css fam body)) \<longrightarrow>
        (\<exists>pre s rest. body = pre @ s \<and> url_occurrence s (url f) rest))
   \<and> fonts (parse_css fam ''src: url(https://x/z.ttf)'') = []
   \<and> all_urls (parse_css fam ''src: url(https://x/z.ttf)'') = {''https://x/z.ttf''}
   \<and> fonts (parse_css fam
        ''/* latin */ @font-face { font-weight: 700; font-style: italic; src: url(https://x/y.woff2); }'')
       \<noteq> []"
proof (intro conjI impI)
  assume "fonts (parse_css fam body) \<noteq> []"
  then show "all_urls (parse_css fam body) \<noteq> {}" by (rule fonts_nonempty_all_urls)
next
  assume "f \<in> set (fonts (parse_css fam body))"
  then show "\<exists>pre s rest. body = pre @ s \<and> url_occurrence s (url f) rest"
    by (rule fonts_url_occurrence)
next
  show "fonts (parse_css fam ''src: url(https://x/z.ttf)'') = []"
    by (simp add: parse_bare_url)
next
  show "all_urls (parse_css fam ''src: url(https://x/z.ttf)'') = {''https://x/z.ttf''}"
    by (simp add: parse_bare_url)
next
  show "fonts (parse_css fam
        ''/* latin */ @font-face { font-weight: 700; font-style: italic; src: url(https://x/y.woff2); }'')
       \<noteq> []"
    by (simp add: parse_latin_block)
qed

theorem fonts_nonempty_all_urls_nonempty_witness:
  "fonts (parse_css ''Roboto''
     ''/* latin */ @font-face { font-weight: 700; font-style: italic; src: url(https://x/y.woff2); }'')
     \<noteq> []
   \<and> all_urls (parse_css ''Roboto''
     ''/* latin */ @font-face { font-weight: 700; font-style: italic; src: url(https://x/y.woff2); }'')
     \<noteq> {}
   \<and> (\<exists>pre s rest.
        ''/* latin */ @font-face { font-weight: 700; font-style: italic; src: url(https://x/y.woff2); }''
          = pre @ s
        \<and> url_occurrence s ''https://x/y.woff2'' rest)"
proof -
  let ?body = "''/* latin */ @font-face { font-weight: 700; font-style: italic; src: url(https://x/y.woff2); }''"
  let ?f = "\<lparr>subset = ''latin'', weight = PyStr ''700'', style = ''italic'',
            url = ''https://x/y.woff2'', format = ''woff2''\<rparr>"
  note t = fonts_nonempty_all_urls_nonempty [where fam = "''Roboto''" and body = ?body
      and f = ?f]
  have ne: "fonts (parse_css ''Roboto'' ?body) \<noteq> []" by (simp add: parse_latin_block)
  have mem: "?f \<in> set (fonts (parse_css ''Roboto'' ?body))" by (simp add: parse_latin_block)
  from t ne have a: "all_urls (parse_css ''Roboto'' ?body) \<noteq> {}" by blast
  from t mem have "\<exists>pre s rest. ?body = pre @ s \<and> url_occurrence s (url ?f) rest" by blast
  then have b: "\<exists>pre s rest. ?body = pre @ s \<and> url_occurrence s ''https://x/y.woff2'' rest"
    by simp
  from ne a b show ?thesis by blast
qed

lemma parse_overlap:
  "parse_css fam ''src: url(a src: url(b)''
   = \<lparr>family = fam, fonts = [], all_urls = {''a src: url(b''}\<rparr>"
  by (simp add: pattern_defs parse_defs)

lemma url_occurrence_b: "url_occurrence ''src: url(b)'' ''b'' []"
proof -
  have "''src: url(b)'' = ''src:'' @ '' '' @ ''url('' @ ''b'' @ '')'' @ []" by simp
  moreover have "\<forall>c\<in>set '' ''. is_space c" by (simp add: is_space_def)
  ultimately show ?thesis
    unfolding url_occurrence_def by (intro exI [of _ "'' ''"]) simp
qed

text \<open>
  C4 as stated: \<open>all_urls\<close> is the set of the arguments of every \<open>src: url(...)\<close>
  occurrence anywhere in the body. In the body \<^verbatim>\<open>src: url(a src: url(b)\<close> the text
  \<^verbatim>\<open>src: url(b)\<close> is an occurrence with the argument \<open>b\<close>, and \<open>all_urls\<close> has
  the one element \<^verbatim>\<open>a src: url(b\<close>: the scan goes on after the match that began at
  the first \<open>src:\<close>.
\<close>

theorem all_urls_overlap_counterexample:
  "''src: url(a src: url(b)'' = ''src: url(a '' @ ''src: url(b)''
   \<and> url_occurrence ''src: url(b)'' ''b'' []
   \<and> all_urls (parse_css ''Roboto'' ''src: url(a src: url(b)'') = {''a src: url(b''}
   \<and> ''b'' \<notin> all_urls (parse_css ''Roboto'' ''src: url(a src: url(b)'')"
  by (simp add: parse_overlap url_occurrence_b)

text \<open>
  C4 amended. \<open>all_urls\<close> is the set of the arguments of the \<open>src: url(...)\<close>
  occurrences that one scan of the whole response text finds from left to right, whatever
  blocks the text has. When resolution and the request succeed, \<open>get_font_urls\<close> returns
  a result, its \<open>all_urls\<close> depends on the response text only, and its \<open>fonts\<close> are the
  faces of the matched blocks that give one. The scan is fixed by two laws: a text in
  which no position starts an occurrence has no URL; and when no position before an
  occurrence starts one, the URLs of the text are the argument of that occurrence and the
  URLs of the text after it (an occurrence that begins inside the argument of an earlier
  one is not found). Every element of \<open>all_urls\<close> is the argument of an occurrence in
  the text. A matched block gives no face exactly when no position of its content starts
  an occurrence; such a block is left out of \<open>fonts\<close> and nothing fails: for the text
  \<^verbatim>\<open>/* latin */ @font-face { font-weight: 400; } src: url(https://x/z.ttf)\<close>
  \<open>fonts\<close> is empty and \<open>all_urls\<close> holds the URL that stands outside the block.
\<close>

theorem all_urls_whole_body:
  "(find_font_family e q None = Some c \<longrightarrow> c \<noteq> [] \<longrightarrow>
      css_response e (css_url c) = Some body \<longrightarrow>
      (\<exists>r. get_font_urls e q = Some r \<and> all_urls r = all_urls (parse_css fam body) \<and>
         fonts r =
           List.map_filter (\<lambda>(sg, content). parse_block sg content)
             (map group_pair (re_findall face_pattern body))))
   \<and> ((\<forall>i\<le>length b0. \<forall>u rest. \<not> url_occurrence (drop i b0) u rest) \<longrightarrow>
        all_urls (parse_css fam0 b0) = {})
   \<and> ((\<forall>i<length pre. \<forall>v rest. \<not> url_occurrence (drop i (pre @ s)) v rest) \<longrightarrow>
        url_occurrence s u post \<longrightarrow>
        all_urls (parse_css fama (pre @ s)) = insert u (all_urls (parse_css famb post)))
   \<and> (w \<in> all_urls (parse_css famc bc) \<longrightarrow>
        (\<exists>p t rest. bc = p @ t \<and> url_occurrence t w rest))
   \<and> (parse_block sg content = None \<longleftrightarrow>
        (\<forall>i\<le>length content. \<forall>u rest. \<not> url_occurrence (drop i content) u rest))
   \<and> fonts (parse_css famd
        ''/* latin */ @font-face { font-weight: 400; } src: url(https://x/z.ttf)'') = []
   \<and> all_urls (parse_css famd
        ''/* latin */ @font-face { font-weight: 400; } src: url(https://x/z.ttf)'')
       = {''https://x/z.ttf''}"
proof (intro conjI impI)
  assume "find_font_family e q None = Some c" "c \<noteq> []"
    "css_response e (css_url c) = Some body"
  then have "get_font_urls e q = Some (parse_css q body)" by (rule get_font_urls_parse)
  moreover have "all_urls (parse_css q body) = all_urls (parse_css fam body)"
    by (simp add: all_urls_parse_css)
  ultimately show "\<exists>r. get_font_urls e q = Some r \<and> all_urls r = all_urls (parse_css fam body) \<and>
         fonts r =
           List.map_filter (\<lambda>(sg, content). parse_block sg content)
             (map group_pair (re_findall face_pattern body))"
    by (simp add: fonts_parse_css)
next
  assume "\<forall>i\<le>length b0. \<forall>u rest. \<not> url_occurrence (drop i b0) u rest"
  then show "all_urls (parse_css fam0 b0) = {}" by (rule all_urls_none)
next
  assume "\<forall>i<length pre. \<forall>v rest. \<not> url_occurrence (drop i (pre @ s)) v rest"
    and "url_occurrence s u post"
  then show "all_urls (parse_css fama (pre @ s)) = insert u (all_urls (parse_css famb post))"
    by (rule all_urls_first)
next
  assume "w \<in> all_urls (parse_css famc bc)"
  then show "\<exists>p t rest. bc = p @ t \<and> url_occurrence t w rest" by (rule all_urls_sound)
next
  show "parse_block sg content = None \<longleftrightarrow>
        (\<forall>i\<le>length content. \<forall>u rest. \<not> url_occurrence (drop i content) u rest)"
    by (rule parse_block_None_iff)
next
  show "fonts (parse_css famd
        ''/* latin */ @font-face { font-weight: 400; } src: url(https://x/z.ttf)'') = []"
    by (simp add: parse_block_outside_url)
next
  show "all_urls (parse_css famd
        ''/* latin */ @font-face { font-weight: 400; } src: url(https://x/z.ttf)'')
       = {''https://x/z.ttf''}"
    by (simp add: parse_block_outside_url)
qed

theorem all_urls_whole_body_witness:
  "(\<exists>r. get_font_urls roboto_env ''roboto'' = Some r
        \<and> all_urls r = {''https://x/y.woff2''} \<and> length (fonts r) = 1)
   \<and> all_urls (parse_css ''Roboto'' []) = {}
   \<and> all_urls (parse_css ''Roboto'' ''a src: url(u)'') = {''u''}
   \<and> (\<exists>p t rest. latin_block = p @ t \<and> url_occurrence t ''https://x/y.woff2'' rest)
   \<and> parse_block ''latin'' '' font-weight: 400; '' = None
   \<and> (\<forall>u rest. \<not> url_occurrence ''font-weight: 400; '' u rest)"
proof -
  note t = all_urls_whole_body [where e = roboto_env and q = "''roboto''" and c = "''Roboto''"
      and body = latin_block and fam = "''Roboto''" and ?b0.0 = "[]" and ?fam0.0 = "''Roboto''"
      and pre = "''a ''" and s = "''src: url(u)''" and u = "''u''" and post = "[]"
      and fama = "''Roboto''" and famb = "''Roboto''" and w = "''https://x/y.woff2''"
      and famc = "''Roboto''" and bc = latin_block and sg = "''latin''"
      and content = "'' font-weight: 400; ''"]
  note t1 = t [THEN conjunct1]
  note t2 = t [THEN conjunct2, THEN conjunct1]
  note t3 = t [THEN conjunct2, THEN conjunct2, THEN conjunct1]
  note t4 = t [THEN conjunct2, THEN conjunct2, THEN conjunct2, THEN conjunct1]
  note t5 = t [THEN conjunct2, THEN conjunct2, THEN conjunct2, THEN conjunct2, THEN conjunct1]
  have a1: "find_font_family roboto_env ''roboto'' None = Some ''Roboto''"
    by (rule find_font_family_roboto_env)
  have a2: "''Roboto'' \<noteq> []" by simp
  have a3: "css_response roboto_env (css_url ''Roboto'') = Some latin_block"
    by (simp add: roboto_env_def)
  have latin: "parse_css ''Roboto'' latin_block =
      \<lparr>family = ''Roboto'',
        fonts = [\<lparr>subset = ''latin'', weight = PyStr ''700'', style = ''italic'',
                  url = ''https://x/y.woff2'', format = ''woff2''\<rparr>],
        all_urls = {''https://x/y.woff2''}\<rparr>"
    by (simp add: latin_block_def parse_latin_block)
  from t1 [THEN mp, OF a1, THEN mp, OF a2, THEN mp, OF a3] obtain r where
    r: "get_font_urls roboto_env ''roboto'' = Some r"
    "all_urls r = all_urls (parse_css ''Roboto'' latin_block)"
    "fonts r = List.map_filter (\<lambda>(sg, content). parse_block sg content)
             (map group_pair (re_findall face_pattern latin_block))" by blast
  from r(3) have "fonts r = fonts (parse_css ''Roboto'' latin_block)"
    by (simp only: fonts_parse_css)
  then have "length (fonts r) = 1" by (simp add: latin)
  moreover from r(2) have "all_urls r = {''https://x/y.woff2''}" by (simp add: latin)
  ultimately have c1: "\<exists>r. get_font_urls roboto_env ''roboto'' = Some r
        \<and> all_urls r = {''https://x/y.woff2''} \<and> length (fonts r) = 1"
    using r(1) by blast
  have b1: "\<forall>i\<le>length ([]::string). \<forall>u rest. \<not> url_occurrence (drop i []) u rest"
    by (simp add: url_occurrence_def)
  from t2 [THEN mp, OF b1] have c2: "all_urls (parse_css ''Roboto'' []) = {}" .
  have s1: "\<forall>i<length ''a ''. \<forall>v rest. \<not> url_occurrence (drop i (''a '' @ ''src: url(u)'')) v rest"
  proof (intro allI impI)
    fix i :: nat and v rest assume "i < length ''a ''"
    then consider "i = 0" | "i = 1" by fastforce
    then show "\<not> url_occurrence (drop i (''a '' @ ''src: url(u)'')) v rest"
    proof cases
      case 1
      then show ?thesis by (simp add: url_occurrence_def)
    next
      case 2
      then show ?thesis by (simp add: url_occurrence_def)
    qed
  qed
  have "''src: url(u)'' = ''src:'' @ '' '' @ ''url('' @ ''u'' @ '')'' @ []" by simp
  moreover have "\<forall>c\<in>set '' ''. is_space c" by (simp add: is_space_def)
  ultimately have s2: "url_occurrence ''src: url(u)'' ''u'' []"
    unfolding url_occurrence_def by (intro exI [of _ "'' ''"]) simp
  from t3 [THEN mp, OF s1, THEN mp, OF s2]
  have "all_urls (parse_css ''Roboto'' (''a '' @ ''src: url(u)''))
      = insert ''u'' (all_urls (parse_css ''Roboto'' []))" .
  with c2 have c3: "all_urls (parse_css ''Roboto'' ''a src: url(u)'') = {''u''}" by simp
  have mem: "''https://x/y.woff2'' \<in> all_urls (parse_css ''Roboto'' latin_block)"
    by (simp add: latin)
  from t4 [THEN mp, OF mem]
  have c4: "\<exists>p t rest. latin_block = p @ t \<and> url_occurrence t ''https://x/y.woff2'' rest" .
  have c5: "parse_block ''latin'' '' font-weight: 400; '' = None"
    by (simp add: pattern_defs parse_defs)
  from t5 [THEN iffD1, OF c5]
  have all: "\<forall>i\<le>length '' font-weight: 400; ''.
      \<forall>u rest. \<not> url_occurrence (drop i '' font-weight: 400; '') u rest" .
  have "(1::nat) \<le> length '' font-weight: 400; ''" by simp
  with all have "\<forall>u rest. \<not> url_occurrence (drop 1 '' font-weight: 400; '') u rest"
    by blast
  then have c6: "\<forall>u rest. \<not> url_occurrence ''font-weight: 400; '' u rest" by simp
  show ?thesis
    by (intro conjI) (rule c1, rule c2, rule c3, rule c4, rule c5, rule c6)
qed

end
